theory Spec2Isabelle
  imports Complex_Main "HOL-Library.AList" "HOL-Library.Char_ord" "HOL-Library.List_Lexorder"
    "HOL-Library.Product_Lexorder"
begin

section \<open>Python values\<close>

text \<open>
  An answer's content is typed \<^verbatim>\<open>Any\<close> in the source.  The values that the questions of
  \<^verbatim>\<open>survey.py\<close> test for are modelled: \<^verbatim>\<open>None\<close>, booleans, integers, strings and lists
  of such values.  Scores are Python floats.  The model has the exceptions of float
  arithmetic (\<^verbatim>\<open>ZeroDivisionError\<close>, and \<^verbatim>\<open>OverflowError\<close> for an integer beyond the range of
  a double) and computes the values as exact reals: rounding and infinities are not part
  of the model, so the properties proved of scores are those that do not rest on them.
\<close>

datatype py_value = PNone | PBool bool | PInt int | PStr string | PList "py_value list"

datatype error =
  InvalidAnswerError | TypeError | ZeroDivisionError | OverflowError | KeyError | AssertionError

text \<open>Python's \<^verbatim>\<open>==\<close>: \<^verbatim>\<open>bool\<close> is a subclass of \<^verbatim>\<open>int\<close>, so \<^verbatim>\<open>True == 1\<close>; lists compare
  element by element, in order.\<close>

fun py_eq :: "py_value \<Rightarrow> py_value \<Rightarrow> bool"
  and py_eq_list :: "py_value list \<Rightarrow> py_value list \<Rightarrow> bool" where
  "py_eq PNone PNone = True"
| "py_eq (PBool a) (PBool b) = (a = b)"
| "py_eq (PBool a) (PInt j) = ((if a then 1 else 0) = j)"
| "py_eq (PInt i) (PBool b) = (i = (if b then 1 else 0))"
| "py_eq (PInt i) (PInt j) = (i = j)"
| "py_eq (PStr s) (PStr t) = (s = t)"
| "py_eq (PList xs) (PList ys) = py_eq_list xs ys"
| "py_eq _ _ = False"
| "py_eq_list [] [] = True"
| "py_eq_list (x # xs) (y # ys) = (py_eq x y \<and> py_eq_list xs ys)"
| "py_eq_list _ _ = False"

text \<open>Lists are unhashable: using one as a dictionary key or a set element raises
  \<^verbatim>\<open>TypeError\<close>.\<close>

fun hashable :: "py_value \<Rightarrow> bool" where
  "hashable (PList xs) = False"
| "hashable _ = True"

text \<open>\<^verbatim>\<open>x in xs\<close> for a list \<^verbatim>\<open>xs\<close>.\<close>

definition py_in :: "py_value \<Rightarrow> py_value list \<Rightarrow> bool" where
  "py_in x xs = list_ex (\<lambda>y. py_eq y x) xs"

text \<open>A Python set is kept as the list of its elements, pairwise unequal under \<^verbatim>\<open>==\<close>.\<close>

definition set_add :: "py_value \<Rightarrow> py_value list \<Rightarrow> py_value list" where
  "set_add x s = (if py_in x s then s else s @ [x])"

fun py_set_build :: "py_value list \<Rightarrow> py_value list \<Rightarrow> error + py_value list" where
  "py_set_build [] acc = Inr acc"
| "py_set_build (x # xs) acc =
     (if hashable x then py_set_build xs (set_add x acc) else Inl TypeError)"

text \<open>\<^verbatim>\<open>set(v)\<close>: a list gives its elements, a string its characters; the other values
  are not iterable.\<close>

fun py_set :: "py_value \<Rightarrow> error + py_value list" where
  "py_set (PList xs) = py_set_build xs []"
| "py_set (PStr s) = py_set_build (map (\<lambda>c. PStr [c]) s) []"
| "py_set _ = Inl TypeError"

definition set_union :: "py_value list \<Rightarrow> py_value list \<Rightarrow> py_value list" where
  "set_union s1 s2 = s1 @ filter (\<lambda>y. \<not> py_in y s1) s2"

definition set_inter :: "py_value list \<Rightarrow> py_value list \<Rightarrow> py_value list" where
  "set_inter s1 s2 = filter (\<lambda>x. py_in x s2) s1"

text \<open>The operand of \<^verbatim>\<open>-\<close> and \<^verbatim>\<open>abs\<close>: integers and booleans (as 0 and 1).\<close>

fun int_of :: "py_value \<Rightarrow> int option" where
  "int_of (PInt i) = Some i"
| "int_of (PBool b) = Some (if b then 1 else 0)"
| "int_of _ = None"

text \<open>An integer is converted to a float when it meets one in \<^verbatim>\<open>*\<close>: an integer that
  rounds to \<^verbatim>\<open>2 ** 1024\<close> or beyond raises \<^verbatim>\<open>OverflowError\<close>.\<close>

definition float_overflow_bound :: int where
  "float_overflow_bound = 2 ^ 1024 - 2 ^ 970"

definition float_of_int :: "int \<Rightarrow> error + real" where
  "float_of_int w =
     (if float_overflow_bound \<le> \<bar>w\<bar> then Inl OverflowError else Inr (real_of_int w))"

text \<open>\<^verbatim>\<open>a / b\<close> for integers: \<^verbatim>\<open>ZeroDivisionError\<close> for a zero divisor, \<^verbatim>\<open>OverflowError\<close> for
  a quotient beyond the range of a double.\<close>

definition int_true_divide :: "int \<Rightarrow> int \<Rightarrow> error + real" where
  "int_true_divide a b =
     (if b = 0 then Inl ZeroDivisionError
      else if real_of_int float_overflow_bound \<le> \<bar>real_of_int a / real_of_int b\<bar>
      then Inl OverflowError
      else Inr (real_of_int a / real_of_int b))"

section \<open>Questions and answers (survey.py)\<close>

datatype answer = Answer (content: py_value)

datatype question =
    MultipleChoiceQuestion int string "py_value list"
  | NumericQuestion int string int int
  | YesNoQuestion int string
  | CheckboxQuestion int string "string list"

fun question_id :: "question \<Rightarrow> int" where
  "question_id (MultipleChoiceQuestion i t opts) = i"
| "question_id (NumericQuestion i t lo hi) = i"
| "question_id (YesNoQuestion i t) = i"
| "question_id (CheckboxQuestion i t opts) = i"

text \<open>The loop over the items of a checkbox answer.\<close>

fun check_items :: "string list \<Rightarrow> py_value list \<Rightarrow> bool" where
  "check_items opts [] = True"
| "check_items opts (PStr s # items) = (if s \<notin> set opts then False else check_items opts items)"
| "check_items opts (_ # items) = False"

fun validate_answer :: "question \<Rightarrow> answer \<Rightarrow> error + bool" where
  "validate_answer (MultipleChoiceQuestion i t opts) a = Inr (py_in (content a) opts)"
| "validate_answer (NumericQuestion i t lo hi) a =
     (case content a of
        PInt c \<Rightarrow> Inr (lo \<le> c \<and> c \<le> hi)
      | _ \<Rightarrow> Inr False)"
| "validate_answer (YesNoQuestion i t) a =
     (case content a of PBool b \<Rightarrow> Inr True | _ \<Rightarrow> Inr False)"
| "validate_answer (CheckboxQuestion i t opts) a =
     (case content a of
        PList xs \<Rightarrow>
          if length xs = 0 then Inr False
          else (case py_set (PList xs) of
                  Inl e \<Rightarrow> Inl e
                | Inr s \<Rightarrow> if length xs \<noteq> length s then Inr False
                           else Inr (check_items opts xs))
      | _ \<Rightarrow> Inr False)"

definition is_valid :: "answer \<Rightarrow> question \<Rightarrow> error + bool" where
  "is_valid a q = validate_answer q a"

definition mc_similarity :: "answer \<Rightarrow> answer \<Rightarrow> error + real" where
  "mc_similarity a1 a2 = (if py_eq (content a1) (content a2) then Inr 1 else Inr 0)"

fun get_similarity :: "question \<Rightarrow> answer \<Rightarrow> answer \<Rightarrow> error + real" where
  "get_similarity (MultipleChoiceQuestion i t opts) a1 a2 = mc_similarity a1 a2"
| "get_similarity (YesNoQuestion i t) a1 a2 = mc_similarity a1 a2"
| "get_similarity (NumericQuestion i t lo hi) a1 a2 =
     (case (int_of (content a1), int_of (content a2)) of
        (Some c1, Some c2) \<Rightarrow>
          (let diff = \<bar>c1 - c2\<bar>; num_range = hi - lo
           in case int_true_divide diff num_range of
                Inl e \<Rightarrow> Inl e
              | Inr quot \<Rightarrow> Inr (1 - quot))
      | _ \<Rightarrow> Inl TypeError)"
| "get_similarity (CheckboxQuestion i t opts) a1 a2 =
     (case py_set (content a1) of
        Inl e \<Rightarrow> Inl e
      | Inr set1 \<Rightarrow>
          (case py_set (content a2) of
             Inl e \<Rightarrow> Inl e
           | Inr set2 \<Rightarrow>
               (let un = set_union set1 set2
                in if length un = 0 then Inr 1
                   else Inr (real (length (set_inter set1 set2)) / real (length un)))))"

section \<open>Criteria (criterion.py)\<close>

datatype criterion = HomogeneousCriterion | HeterogeneousCriterion | LonelyMemberCriterion

text \<open>The validation loop that opens \<^verbatim>\<open>score_answers\<close>.\<close>

fun validate_all :: "question \<Rightarrow> answer list \<Rightarrow> error + unit" where
  "validate_all q [] = Inr ()"
| "validate_all q (a # as) =
     (case is_valid a q of
        Inl e \<Rightarrow> Inl e
      | Inr ok \<Rightarrow> if \<not> ok then Inl InvalidAnswerError else validate_all q as)"

text \<open>The inner loop over \<^verbatim>\<open>j\<close> for a fixed \<^verbatim>\<open>answers[i]\<close>, and the outer loop over
  \<^verbatim>\<open>i\<close>; the state is \<^verbatim>\<open>(total, count)\<close>.\<close>

fun sim_row :: "question \<Rightarrow> answer \<Rightarrow> answer list \<Rightarrow> real \<times> nat \<Rightarrow> error + real \<times> nat" where
  "sim_row q a [] acc = Inr acc"
| "sim_row q a (b # bs) (tot, cnt) =
     (case get_similarity q a b of
        Inl e \<Rightarrow> Inl e
      | Inr s \<Rightarrow> sim_row q a bs (tot + s, cnt + 1))"

fun sim_pairs :: "question \<Rightarrow> answer list \<Rightarrow> real \<times> nat \<Rightarrow> error + real \<times> nat" where
  "sim_pairs q [] acc = Inr acc"
| "sim_pairs q (a # as) acc =
     (case sim_row q a as acc of
        Inl e \<Rightarrow> Inl e
      | Inr acc' \<Rightarrow> sim_pairs q as acc')"

definition homogeneous_score_answers :: "question \<Rightarrow> answer list \<Rightarrow> error + real" where
  "homogeneous_score_answers q answers =
     (case validate_all q answers of
        Inl e \<Rightarrow> Inl e
      | Inr _ \<Rightarrow>
          if length answers = 1 then Inr 1
          else (case sim_pairs q answers (0, 0) of
                  Inl e \<Rightarrow> Inl e
                | Inr (tot, cnt) \<Rightarrow>
                    if cnt = 0 then Inl ZeroDivisionError
                    else Inr (tot / real cnt)))"

definition heterogeneous_score_answers :: "question \<Rightarrow> answer list \<Rightarrow> error + real" where
  "heterogeneous_score_answers q answers =
     (case homogeneous_score_answers q answers of
        Inl e \<Rightarrow> Inl e
      | Inr s \<Rightarrow> Inr (1 - s))"

text \<open>The dictionary \<^verbatim>\<open>counts\<close>, in insertion order; keys are compared with \<^verbatim>\<open>==\<close>.\<close>

fun counts_get :: "(py_value \<times> nat) list \<Rightarrow> py_value \<Rightarrow> nat \<Rightarrow> nat" where
  "counts_get [] k d = d"
| "counts_get ((k', v) # kvs) k d = (if py_eq k' k then v else counts_get kvs k d)"

fun counts_set :: "(py_value \<times> nat) list \<Rightarrow> py_value \<Rightarrow> nat \<Rightarrow> (py_value \<times> nat) list" where
  "counts_set [] k v = [(k, v)]"
| "counts_set ((k', v') # kvs) k v =
     (if py_eq k' k then (k', v) # kvs else (k', v') # counts_set kvs k v)"

fun count_loop :: "answer list \<Rightarrow> (py_value \<times> nat) list \<Rightarrow> error + (py_value \<times> nat) list" where
  "count_loop [] counts = Inr counts"
| "count_loop (a # as) counts =
     (if hashable (content a)
      then count_loop as (counts_set counts (content a) (counts_get counts (content a) 0 + 1))
      else Inl TypeError)"

fun freq_loop :: "nat list \<Rightarrow> real" where
  "freq_loop [] = 1"
| "freq_loop (freq # freqs) = (if freq = 1 then 0 else freq_loop freqs)"

definition lonely_member_score_answers :: "question \<Rightarrow> answer list \<Rightarrow> error + real" where
  "lonely_member_score_answers q answers =
     (case validate_all q answers of
        Inl e \<Rightarrow> Inl e
      | Inr _ \<Rightarrow>
          if length answers = 1 then Inr 0
          else (case count_loop answers [] of
                  Inl e \<Rightarrow> Inl e
                | Inr counts \<Rightarrow> Inr (freq_loop (map snd counts))))"

fun score_answers :: "criterion \<Rightarrow> question \<Rightarrow> answer list \<Rightarrow> error + real" where
  "score_answers HomogeneousCriterion q answers = homogeneous_score_answers q answers"
| "score_answers HeterogeneousCriterion q answers = heterogeneous_score_answers q answers"
| "score_answers LonelyMemberCriterion q answers = lonely_member_score_answers q answers"

section \<open>Students and courses (course.py)\<close>

text \<open>A dictionary with integer keys is an association list in insertion order;
  \<^verbatim>\<open>d[k] = v\<close> is \<^const>\<open>AList.update\<close>, \<^verbatim>\<open>d.get(k)\<close> is \<^const>\<open>map_of\<close>.\<close>

record student =
  student_id :: int
  student_name :: string
  student_answers :: "(int \<times> answer) list"

text \<open>The constructor ends with \<^verbatim>\<open>assert len(self.name) > 0\<close>.\<close>

definition Student :: "int \<Rightarrow> string \<Rightarrow> error + student" where
  "Student i n =
     (if length n > 0 then Inr \<lparr>student_id = i, student_name = n, student_answers = []\<rparr>
      else Inl AssertionError)"

definition has_answer :: "student \<Rightarrow> question \<Rightarrow> bool" where
  "has_answer s q = (question_id q \<in> set (map fst (student_answers s)))"

definition set_answer :: "student \<Rightarrow> question \<Rightarrow> answer \<Rightarrow> student" where
  "set_answer s q a = s\<lparr>student_answers := AList.update (question_id q) a (student_answers s)\<rparr>"

definition get_answer :: "student \<Rightarrow> question \<Rightarrow> answer option" where
  "get_answer s q = map_of (student_answers s) (question_id q)"

record course =
  course_name :: string
  students :: "student list"

definition Course :: "string \<Rightarrow> error + course" where
  "Course n =
     (if length n > 0 then Inr \<lparr>course_name = n, students = []\<rparr> else Inl AssertionError)"

text \<open>The loop of \<^verbatim>\<open>enroll_students\<close>: true when it reaches the early \<^verbatim>\<open>return\<close>.\<close>

fun enroll_conflict :: "int list \<Rightarrow> student list \<Rightarrow> bool" where
  "enroll_conflict existing_ids [] = False"
| "enroll_conflict existing_ids (s # ss) =
     (if student_id s \<in> set existing_ids then True else enroll_conflict existing_ids ss)"

text \<open>The method is declared \<^verbatim>\<open>-> None\<close>: both exits return \<^verbatim>\<open>None\<close>.  The result is the
  updated course with the returned value.\<close>

definition enroll_students :: "course \<Rightarrow> student list \<Rightarrow> course \<times> py_value" where
  "enroll_students c sts =
     (let existing_ids = map student_id (students c)
      in if enroll_conflict existing_ids sts then (c, PNone)
         else (c\<lparr>students := students c @ sts\<rparr>, PNone))"

section \<open>Surveys (survey.py)\<close>

record survey =
  questions :: "(int \<times> question) list"
  criteria :: "(int \<times> criterion) list"
  weights :: "(int \<times> int) list"

fun survey_add :: "survey \<Rightarrow> question list \<Rightarrow> survey" where
  "survey_add sv [] = sv"
| "survey_add sv (q # qs) =
     survey_add \<lparr>questions = AList.update (question_id q) q (questions sv),
                 criteria = AList.update (question_id q) HomogeneousCriterion (criteria sv),
                 weights = AList.update (question_id q) 1 (weights sv)\<rparr> qs"

definition Survey :: "question list \<Rightarrow> survey" where
  "Survey qs = survey_add \<lparr>questions = [], criteria = [], weights = []\<rparr> qs"

text \<open>\<^verbatim>\<open>d[k]\<close> raises \<^verbatim>\<open>KeyError\<close> for a missing key.\<close>

definition dict_getitem :: "('k \<times> 'v) list \<Rightarrow> 'k \<Rightarrow> error + 'v" where
  "dict_getitem d k = (case map_of d k of None \<Rightarrow> Inl KeyError | Some v \<Rightarrow> Inr v)"

fun getitems :: "('k \<times> 'v) list \<Rightarrow> 'k list \<Rightarrow> error + 'v list" where
  "getitems d [] = Inr []"
| "getitems d (k # ks) =
     (case dict_getitem d k of
        Inl e \<Rightarrow> Inl e
      | Inr v \<Rightarrow> (case getitems d ks of Inl e \<Rightarrow> Inl e | Inr vs \<Rightarrow> Inr (v # vs)))"

definition get_questions :: "survey \<Rightarrow> error + question list" where
  "get_questions sv = getitems (questions sv) (sort (map fst (questions sv)))"

definition get_criterion :: "survey \<Rightarrow> question \<Rightarrow> error + criterion" where
  "get_criterion sv q = dict_getitem (criteria sv) (question_id q)"

definition get_weight :: "survey \<Rightarrow> question \<Rightarrow> error + int" where
  "get_weight sv q = dict_getitem (weights sv) (question_id q)"

definition set_weight :: "survey \<Rightarrow> int \<Rightarrow> question \<Rightarrow> survey \<times> bool" where
  "set_weight sv w q =
     (if question_id q \<notin> set (map fst (weights sv)) then (sv, False)
      else (sv\<lparr>weights := AList.update (question_id q) w (weights sv)\<rparr>, True))"

definition set_criterion :: "survey \<Rightarrow> criterion \<Rightarrow> question \<Rightarrow> survey \<times> bool" where
  "set_criterion sv c q =
     (if question_id q \<notin> set (map fst (criteria sv)) then (sv, False)
      else (sv\<lparr>criteria := AList.update (question_id q) c (criteria sv)\<rparr>, True))"

fun get_ans :: "student list \<Rightarrow> question \<Rightarrow> answer list option" where
  "get_ans [] q = Some []"
| "get_ans (s # sts) q =
     (case get_answer s q of
        None \<Rightarrow> None
      | Some ans \<Rightarrow> (case get_ans sts q of None \<Rightarrow> None | Some rest \<Rightarrow> Some (ans # rest)))"

text \<open>The \<^verbatim>\<open>for\<close> loop of \<^verbatim>\<open>score_students\<close> with the \<^verbatim>\<open>return\<close> that follows it; the
  accumulator is \<^verbatim>\<open>total\<close>.\<close>

fun score_loop :: "survey \<Rightarrow> student list \<Rightarrow> question list \<Rightarrow> real \<Rightarrow> error + real" where
  "score_loop sv sts [] tot = Inr (tot / real (length (questions sv)))"
| "score_loop sv sts (q # qs) tot =
     (case get_ans sts q of
        None \<Rightarrow> Inr 0
      | Some answers \<Rightarrow>
          (case get_criterion sv q of
             Inl e \<Rightarrow> Inl e
           | Inr c \<Rightarrow>
               (case score_answers c q answers of
                  Inl e \<Rightarrow> Inl e
                | Inr ans_scores \<Rightarrow>
                    (case get_weight sv q of
                       Inl e \<Rightarrow> Inl e
                     | Inr w \<Rightarrow>
                         (case float_of_int w of
                            Inl e \<Rightarrow> Inl e
                          | Inr weight \<Rightarrow> score_loop sv sts qs (tot + ans_scores * weight))))))"

text \<open>\<^verbatim>\<open>except InvalidAnswerError: return 0.0\<close>; every other exception propagates.\<close>

fun catch_invalid_answer :: "error + real \<Rightarrow> error + real" where
  "catch_invalid_answer (Inl InvalidAnswerError) = Inr 0"
| "catch_invalid_answer r = r"

definition score_students :: "survey \<Rightarrow> student list \<Rightarrow> error + real" where
  "score_students sv sts =
     (if length (questions sv) = 0 then Inr 0
      else catch_invalid_answer
             (case get_questions sv of
                Inl e \<Rightarrow> Inl e
              | Inr qs \<Rightarrow> score_loop sv sts qs 0))"

section \<open>Groups, groupings and groupers\<close>

text \<open>Modelled from the spec: \<^verbatim>\<open>grouper.py\<close> (\<^verbatim>\<open>Group\<close>, \<^verbatim>\<open>Grouping\<close>, \<^verbatim>\<open>AlphaGrouper\<close>,
  \<^verbatim>\<open>GreedyGrouper\<close>) is imported by the tests and by \<^verbatim>\<open>score_grouping\<close> but is not among the
  source files.  A group is the list of its members; a grouping is the list of its groups
  in insertion order.\<close>

datatype group = Group (get_members: "student list")

datatype grouping = Grouping (get_groups: "group list")

text \<open>Modelled from the spec: \<^verbatim>\<open>add_group\<close> appends the group iff none of its members
  already appears (by id) in an existing group; otherwise the grouping is unchanged and
  the result is false.\<close>

definition add_group :: "grouping \<Rightarrow> group \<Rightarrow> grouping \<times> bool" where
  "add_group gr g =
     (if list_ex (\<lambda>s. student_id s \<in> set (map student_id (concat (map get_members (get_groups gr)))))
           (get_members g)
      then (gr, False)
      else (Grouping (get_groups gr @ [g]), True))"

text \<open>\<^verbatim>\<open>score_grouping\<close> is in \<^verbatim>\<open>survey.py\<close>.\<close>

fun grouping_loop :: "survey \<Rightarrow> group list \<Rightarrow> real \<Rightarrow> error + real" where
  "grouping_loop sv [] tot = Inr tot"
| "grouping_loop sv (g # gs) tot =
     (case score_students sv (get_members g) of
        Inl e \<Rightarrow> Inl e
      | Inr s \<Rightarrow> grouping_loop sv gs (tot + s))"

definition score_grouping :: "survey \<Rightarrow> grouping \<Rightarrow> error + real" where
  "score_grouping sv gr =
     (let gs = get_groups gr
      in if length gs = 0 then Inr 0
         else (case grouping_loop sv gs 0 of
                 Inl e \<Rightarrow> Inl e
               | Inr tot \<Rightarrow> Inr (tot / real (length gs))))"

text \<open>Modelled from the spec: the slicing of \<^verbatim>\<open>AlphaGrouper\<close> (\<^verbatim>\<open>grouper.py\<close> is missing),
  consecutive chunks of \<^verbatim>\<open>group_size\<close>.\<close>

function slices :: "nat \<Rightarrow> 'a list \<Rightarrow> 'a list list" where
  "slices n xs = (if n = 0 \<or> xs = [] then [] else take n xs # slices n (drop n xs))"
  by pat_completeness auto
termination
  by (relation "measure (\<lambda>(n, xs). length xs)") auto

text \<open>Modelled from the spec: a grouper (\<^verbatim>\<open>grouper.py\<close> is missing) builds its grouping
  incrementally with \<^verbatim>\<open>add_group\<close>.\<close>

fun add_groups :: "grouping \<Rightarrow> group list \<Rightarrow> grouping" where
  "add_groups gr [] = gr"
| "add_groups gr (g # gs) = add_groups (fst (add_group gr g)) gs"

text \<open>Modelled from the spec: \<^verbatim>\<open>AlphaGrouper.make_grouping\<close> (\<^verbatim>\<open>grouper.py\<close> is missing) sorts
  the population by name, then id, and slices it into consecutive chunks of
  \<^verbatim>\<open>group_size\<close>.\<close>

definition alpha_make_grouping :: "nat \<Rightarrow> course \<Rightarrow> survey \<Rightarrow> grouping" where
  "alpha_make_grouping group_size c sv =
     add_groups (Grouping [])
       (map Group (slices group_size
          (sort_key (\<lambda>s. (student_name s, student_id s)) (students c))))"

text \<open>Modelled from the spec: \<^verbatim>\<open>GreedyGrouper.make_grouping\<close> (\<^verbatim>\<open>grouper.py\<close> is missing) is
  a hill climb over single-pair swaps.  It starts from the alphabetical grouping; a pass
  scores every exchange of one member of group \<^verbatim>\<open>i\<close> with one member of group \<^verbatim>\<open>j > i\<close>,
  in group-index then member-index order, and applies the exchange with the largest
  positive improvement (the first one on ties); passes repeat until none improves or the
  iteration budget is spent.  First, the exchange of member \<^verbatim>\<open>a\<close> of group \<^verbatim>\<open>i\<close> with
  member \<^verbatim>\<open>b\<close> of group \<^verbatim>\<open>j\<close>.\<close>

definition swap_members :: "grouping \<Rightarrow> nat \<times> nat \<times> nat \<times> nat \<Rightarrow> grouping" where
  "swap_members gr c =
     (case c of (i, j, a, b) \<Rightarrow>
        (let gs = get_groups gr;
             mi = get_members (gs ! i);
             mj = get_members (gs ! j)
         in Grouping (gs[i := Group (mi[a := mj ! b]), j := Group (mj[b := mi ! a])])))"

text \<open>Modelled from the spec: the exchanges of a pass, in group-index then member-index
  order.\<close>

definition swap_candidates :: "grouping \<Rightarrow> (nat \<times> nat \<times> nat \<times> nat) list" where
  "swap_candidates gr =
     (let gs = get_groups gr
      in concat (map (\<lambda>i.
           concat (map (\<lambda>j.
             concat (map (\<lambda>a.
               map (\<lambda>b. (i, j, a, b)) [0..<length (get_members (gs ! j))])
               [0..<length (get_members (gs ! i))]))
             [Suc i..<length gs]))
           [0..<length gs]))"

text \<open>Modelled from the spec: one pass.  \<^verbatim>\<open>best\<close> starts as the current score, so only a
  strictly better grouping is kept, and of equally good ones the first.\<close>

fun best_swap :: "survey \<Rightarrow> grouping \<Rightarrow> (nat \<times> nat \<times> nat \<times> nat) list \<Rightarrow> real \<Rightarrow> grouping option
                    \<Rightarrow> error + real \<times> grouping option" where
  "best_swap sv gr [] best found = Inr (best, found)"
| "best_swap sv gr (c # cs) best found =
     (case score_grouping sv (swap_members gr c) of
        Inl e \<Rightarrow> Inl e
      | Inr s \<Rightarrow> if best < s then best_swap sv gr cs s (Some (swap_members gr c))
                 else best_swap sv gr cs best found)"

text \<open>Modelled from the spec: passes repeat until a pass finds no improving exchange or
  the budget is spent.\<close>

fun greedy_search :: "survey \<Rightarrow> nat \<Rightarrow> grouping \<Rightarrow> error + grouping" where
  "greedy_search sv 0 gr = Inr gr"
| "greedy_search sv (Suc budget) gr =
     (case score_grouping sv gr of
        Inl e \<Rightarrow> Inl e
      | Inr cur \<Rightarrow>
          (case best_swap sv gr (swap_candidates gr) cur None of
             Inl e \<Rightarrow> Inl e
           | Inr (best, None) \<Rightarrow> Inr gr
           | Inr (best, Some gr') \<Rightarrow> greedy_search sv budget gr'))"

text \<open>Modelled from the spec: the search starts from the alphabetical grouping.\<close>

definition greedy_make_grouping :: "nat \<Rightarrow> nat \<Rightarrow> course \<Rightarrow> survey \<Rightarrow> error + grouping" where
  "greedy_make_grouping budget group_size c sv =
     greedy_search sv budget (alpha_make_grouping group_size c sv)"

section \<open>Preconditions and invariants\<close>

text \<open>\<^verbatim>\<open>NumericQuestion.__init__\<close> requires \<^verbatim>\<open>min_ < max_\<close>.\<close>

definition range_precondition :: "question \<Rightarrow> bool" where
  "range_precondition q = (case q of NumericQuestion i t lo hi \<Rightarrow> lo < hi | _ \<Rightarrow> True)"

definition str_items :: "py_value list \<Rightarrow> bool" where
  "str_items xs = (\<forall>x\<in>set xs. \<exists>s. x = PStr s)"

text \<open>The representation invariants of \<^verbatim>\<open>Survey\<close>: a dictionary has each key once, each key
  of \<^verbatim>\<open>_questions\<close> is the id of its value, and the three dictionaries have the same keys.\<close>

definition survey_inv :: "survey \<Rightarrow> bool" where
  "survey_inv sv =
     (distinct (map fst (questions sv))
      \<and> (\<forall>(k, q)\<in>set (questions sv). question_id q = k)
      \<and> set (map fst (criteria sv)) = set (map fst (questions sv))
      \<and> set (map fst (weights sv)) = set (map fst (questions sv)))"

text \<open>How often a content occurs among the answers, under \<^verbatim>\<open>==\<close>.\<close>

definition occurrences :: "py_value \<Rightarrow> answer list \<Rightarrow> nat" where
  "occurrences c answers = length (filter (\<lambda>b. py_eq (content b) c) answers)"

text \<open>No two keys of the dictionary \<^verbatim>\<open>counts\<close> are equal.\<close>

fun counts_ok :: "(py_value \<times> nat) list \<Rightarrow> bool" where
  "counts_ok [] = True"
| "counts_ok ((k, n) # kvs) = ((\<forall>p\<in>set kvs. \<not> py_eq k (fst p)) \<and> counts_ok kvs)"

section \<open>Concrete inputs\<close>

definition ex_checkbox :: question where
  "ex_checkbox = CheckboxQuestion 1 ''Pick'' [''a'', ''b'', ''c'', ''d'']"

definition ex_yesno :: question where
  "ex_yesno = YesNoQuestion 2 ''Agree?''"

definition ex_numeric :: question where
  "ex_numeric = NumericQuestion 3 ''Rate'' 1 5"

text \<open>A survey of the numeric question (weight 3) and the yes/no question (weight 1), both
  with the default criterion.\<close>

definition ex_survey :: survey where
  "ex_survey = fst (set_weight (Survey [ex_numeric, ex_yesno]) 3 ex_numeric)"

definition ex_student :: "int \<Rightarrow> string \<Rightarrow> bool \<Rightarrow> int \<Rightarrow> student" where
  "ex_student i n b r =
     set_answer
       (set_answer \<lparr>student_id = i, student_name = n, student_answers = []\<rparr>
          ex_yesno (Answer (PBool b)))
       ex_numeric (Answer (PInt r))"

definition ex_pair :: "student list" where
  "ex_pair = [ex_student 1 ''A'' True 1, ex_student 2 ''B'' True 3]"

text \<open>A course of four students whose alphabetical grouping pairs unlike answers.\<close>

definition ex_course :: course where
  "ex_course =
     fst (enroll_students \<lparr>course_name = ''CSC148'', students = []\<rparr>
       [ex_student 1 ''D'' False 1, ex_student 2 ''A'' True 1,
        ex_student 3 ''B'' False 1, ex_student 4 ''C'' True 1])"

definition ex_yesno_survey :: survey where
  "ex_yesno_survey = Survey [ex_yesno]"

text \<open>A survey whose first question (by id) is the checkbox question under the lonely-member
  criterion, and two students who answered only that question, both validly.\<close>

definition ex_lonely_survey :: survey where
  "ex_lonely_survey =
     fst (set_criterion (Survey [ex_checkbox, ex_yesno]) LonelyMemberCriterion ex_checkbox)"

text \<open>A survey of the checkbox question alone, under the lonely-member criterion.\<close>

definition ex_checkbox_survey :: survey where
  "ex_checkbox_survey =
     fst (set_criterion (Survey [ex_checkbox]) LonelyMemberCriterion ex_checkbox)"

definition ex_lonely_student :: "int \<Rightarrow> string \<Rightarrow> student" where
  "ex_lonely_student i n =
     set_answer \<lparr>student_id = i, student_name = n, student_answers = []\<rparr>
       ex_checkbox (Answer (PList [PStr ''a'']))"

text \<open>The enrolment of the test \<^verbatim>\<open>test_course_enroll_atomic\<close>.\<close>

definition ex_enrolled :: course where
  "ex_enrolled =
     \<lparr>course_name = ''CSC148'',
      students = [\<lparr>student_id = 1, student_name = ''A'', student_answers = []\<rparr>]\<rparr>"

definition ex_batch :: "student list" where
  "ex_batch = [\<lparr>student_id = 1, student_name = ''B'', student_answers = []\<rparr>,
               \<lparr>student_id = 2, student_name = ''C'', student_answers = []\<rparr>]"

section \<open>Equality and sets of Python values\<close>

lemma py_eq_list_refl: "(\<forall>x\<in>set xs. py_eq x x) \<Longrightarrow> py_eq_list xs xs"
  by (induction xs) auto

lemma py_eq_refl: "py_eq x x"
  by (induction x) (auto intro: py_eq_list_refl)

lemma py_eq_sym: "py_eq x y = py_eq y x" and py_eq_list_sym: "py_eq_list xs ys = py_eq_list ys xs"
  by (induction x y and xs ys rule: py_eq_py_eq_list.induct) auto

lemma py_eq_PStr_right: "py_eq y (PStr s) \<longleftrightarrow> y = PStr s"
  by (cases y) auto

lemma py_in_PStr: "py_in (PStr s) ys \<longleftrightarrow> PStr s \<in> set ys"
  by (auto simp: py_in_def list_ex_iff py_eq_PStr_right)

lemma check_items_str: "check_items opts xs \<Longrightarrow> str_items xs"
  by (induction opts xs rule: check_items.induct) (auto simp: str_items_def split: if_splits)

lemma py_set_build_str:
  "str_items xs \<Longrightarrow> \<exists>r. py_set_build xs acc = Inr r \<and> set r = set xs \<union> set acc \<and> (distinct acc \<longrightarrow> distinct r)"
proof (induction xs arbitrary: acc)
  case Nil
  then show ?case by simp
next
  case (Cons x xs)
  then obtain s where x: "x = PStr s" by (auto simp: str_items_def)
  from Cons.prems have "str_items xs" by (simp add: str_items_def)
  from Cons.IH[OF this, of "set_add x acc"]
  show ?case using x by (auto simp: set_add_def py_in_PStr)
qed

lemma inter_len:
  assumes "str_items r1" "distinct r1"
  shows "length (set_inter r1 r2) = card (set r1 \<inter> set r2)"
proof -
  have "set_inter r1 r2 = filter (\<lambda>x. x \<in> set r2) r1"
    unfolding set_inter_def using assms(1)
    by (intro filter_cong) (auto simp: str_items_def py_in_PStr)
  moreover have "distinct (filter (\<lambda>x. x \<in> set r2) r1)" using assms(2) by simp
  ultimately have "length (set_inter r1 r2) = card (set (filter (\<lambda>x. x \<in> set r2) r1))"
    by (metis distinct_card)
  also have "set (filter (\<lambda>x. x \<in> set r2) r1) = set r1 \<inter> set r2" by auto
  finally show ?thesis .
qed

lemma union_len:
  assumes "str_items r2" "distinct r1" "distinct r2"
  shows "length (set_union r1 r2) = card (set r1 \<union> set r2)"
proof -
  have eq: "set_union r1 r2 = r1 @ filter (\<lambda>x. x \<notin> set r1) r2"
    unfolding set_union_def using assms(1)
    by (auto intro!: filter_cong simp: str_items_def py_in_PStr)
  have "distinct (r1 @ filter (\<lambda>x. x \<notin> set r1) r2)" using assms by auto
  then have "length (set_union r1 r2) = card (set (r1 @ filter (\<lambda>x. x \<notin> set r1) r2))"
    unfolding eq by (simp only: distinct_card)
  also have "set (r1 @ filter (\<lambda>x. x \<notin> set r1) r2) = set r1 \<union> set r2" by auto
  finally show ?thesis .
qed

lemma checkbox_valid:
  assumes "validate_answer (CheckboxQuestion i t opts) a = Inr True"
  shows "\<exists>xs r. content a = PList xs \<and> xs \<noteq> [] \<and> str_items xs \<and> py_set (content a) = Inr r
     \<and> set r = set xs \<and> distinct r \<and> str_items r"
proof -
  from assms obtain xs where c: "content a = PList xs"
    by (cases "content a") auto
  from assms c have ne: "xs \<noteq> []" by (auto split: if_splits)
  from assms c ne obtain s where s: "py_set_build xs [] = Inr s" and chk: "check_items opts xs"
    by (auto split: if_splits sum.splits)
  from chk have str: "str_items xs" by (rule check_items_str)
  from py_set_build_str[OF str, of "[]"] s have "set s = set xs" "distinct s" by auto
  with c ne str s show ?thesis by (auto simp: str_items_def)
qed

lemma checkbox_similarity:
  assumes "validate_answer (CheckboxQuestion i t opts) a = Inr True"
      and "validate_answer (CheckboxQuestion i t opts) b = Inr True"
  shows "\<exists>xs ys. content a = PList xs \<and> content b = PList ys \<and> xs \<noteq> [] \<and> ys \<noteq> [] \<and>
     get_similarity (CheckboxQuestion i t opts) a b
       = Inr (real (card (set xs \<inter> set ys)) / real (card (set xs \<union> set ys)))"
proof -
  from checkbox_valid[OF assms(1)] obtain xs r1 where
    a: "content a = PList xs" "xs \<noteq> []" "py_set (content a) = Inr r1" "set r1 = set xs" "distinct r1" "str_items r1"
    by blast
  from checkbox_valid[OF assms(2)] obtain ys r2 where
    b: "content b = PList ys" "ys \<noteq> []" "py_set (content b) = Inr r2" "set r2 = set ys" "distinct r2" "str_items r2"
    by blast
  have i: "length (set_inter r1 r2) = card (set xs \<inter> set ys)"
    using inter_len[OF a(6) a(5), of r2] a(4) b(4) by simp
  have u: "length (set_union r1 r2) = card (set xs \<union> set ys)"
    using union_len[OF b(6) a(5) b(5)] a(4) b(4) by simp
  have "card (set xs \<union> set ys) \<noteq> 0" using a(2) by simp
  with u have "length (set_union r1 r2) \<noteq> 0" by simp
  with a b i u show ?thesis by (simp add: Let_def del: length_0_conv)
qed

section \<open>Exceptions of float arithmetic\<close>

lemma float_overflow_bound_gt_one: "1 < float_overflow_bound"
  by (simp add: float_overflow_bound_def)

lemma float_of_int_small: "\<bar>w\<bar> < float_overflow_bound \<Longrightarrow> float_of_int w = Inr (real_of_int w)"
  by (simp add: float_of_int_def)

lemma float_of_int_error: "float_of_int w = Inl e \<Longrightarrow> e = OverflowError"
  by (auto simp: float_of_int_def split: if_splits)

lemma int_true_divide_error:
  "int_true_divide a b = Inl e \<Longrightarrow> e = ZeroDivisionError \<or> e = OverflowError"
  by (auto simp: int_true_divide_def split: if_splits)

lemma int_true_divide_fraction:
  assumes "0 \<le> a" and "a \<le> b" and "0 < b"
  shows "int_true_divide a b = Inr (real_of_int a / real_of_int b)"
proof -
  have "real_of_int a / real_of_int b \<le> 1" using assms by (simp add: divide_le_eq_1)
  moreover have "0 \<le> real_of_int a / real_of_int b" using assms by simp
  moreover have "(1::real) < real_of_int float_overflow_bound"
    using float_overflow_bound_gt_one by linarith
  ultimately have "\<not> real_of_int float_overflow_bound \<le> \<bar>real_of_int a / real_of_int b\<bar>"
    by linarith
  with assms(3) show ?thesis by (simp add: int_true_divide_def)
qed

section \<open>Similarity of answers\<close>

text \<open>On valid answers the numeric similarity raises nothing; in the model's exact
  arithmetic its value is \<^verbatim>\<open>1 - |a - b| / (max - min)\<close>.\<close>

lemma numeric_similarity_valid:
  assumes "lo < hi"
      and "validate_answer (NumericQuestion i t lo hi) a = Inr True"
      and "validate_answer (NumericQuestion i t lo hi) b = Inr True"
  shows "\<exists>x y. content a = PInt x \<and> content b = PInt y \<and> \<bar>x - y\<bar> \<le> hi - lo
           \<and> get_similarity (NumericQuestion i t lo hi) a b
               = Inr (1 - real_of_int \<bar>x - y\<bar> / real_of_int (hi - lo))"
proof -
  from assms obtain x y where xy: "content a = PInt x" "content b = PInt y"
     "lo \<le> x" "x \<le> hi" "lo \<le> y" "y \<le> hi"
    by (cases "content a"; cases "content b") auto
  then have le: "\<bar>x - y\<bar> \<le> hi - lo" by linarith
  have "int_true_divide \<bar>x - y\<bar> (hi - lo) = Inr (real_of_int \<bar>x - y\<bar> / real_of_int (hi - lo))"
    using le assms(1) by (intro int_true_divide_fraction) simp_all
  with xy(1,2) le show ?thesis by (simp add: Let_def)
qed

text \<open>
  C7: for every question type and every pair of answers valid for the question,
  \<^verbatim>\<open>get_similarity\<close> returns a number, the same in both argument orders, that lies between
  0 and 1; for two answers with identical content it is 1 (for every question type, the
  discrete ones included).  A numeric question is taken with \<^verbatim>\<open>min < max\<close>, as its
  constructor requires.
\<close>

theorem similarity_symmetric_bounded:
  assumes "range_precondition q"
      and "validate_answer q a = Inr True" and "validate_answer q b = Inr True"
  shows "\<exists>s. get_similarity q a b = Inr s \<and> get_similarity q b a = Inr s \<and> 0 \<le> s \<and> s \<le> 1
           \<and> (content a = content b \<longrightarrow> s = 1)"
proof (cases q)
  case (MultipleChoiceQuestion i t opts)
  then show ?thesis by (auto simp: mc_similarity_def py_eq_refl py_eq_sym)
next
  case (YesNoQuestion i t)
  then show ?thesis by (auto simp: mc_similarity_def py_eq_refl py_eq_sym)
next
  case (NumericQuestion i t lo hi)
  with assms have r: "lo < hi"
    and va: "validate_answer (NumericQuestion i t lo hi) a = Inr True"
    and vb: "validate_answer (NumericQuestion i t lo hi) b = Inr True"
    by (simp_all add: range_precondition_def)
  from numeric_similarity_valid[OF r va vb] obtain x y where
    xy: "content a = PInt x" "content b = PInt y" "\<bar>x - y\<bar> \<le> hi - lo"
    and ab: "get_similarity (NumericQuestion i t lo hi) a b
               = Inr (1 - real_of_int \<bar>x - y\<bar> / real_of_int (hi - lo))" by blast
  from numeric_similarity_valid[OF r vb va] xy(1,2)
  have ba: "get_similarity (NumericQuestion i t lo hi) b a
               = Inr (1 - real_of_int \<bar>y - x\<bar> / real_of_int (hi - lo))" by auto
  let ?s = "1 - real_of_int \<bar>x - y\<bar> / real_of_int (hi - lo)"
  have sym: "\<bar>y - x\<bar> = \<bar>x - y\<bar>" by linarith
  have "real_of_int \<bar>x - y\<bar> / real_of_int (hi - lo) \<le> 1" using xy(3) r
    by (simp add: divide_le_eq_1)
  then have 3: "0 \<le> ?s" by simp
  have "0 \<le> real_of_int \<bar>x - y\<bar> / real_of_int (hi - lo)" using r by simp
  then have 4: "?s \<le> 1" by simp
  have 5: "content a = content b \<longrightarrow> ?s = 1" using xy(1,2) by auto
  have 1: "get_similarity q a b = Inr ?s" using ab NumericQuestion by (simp only:)
  have 2: "get_similarity q b a = Inr ?s" using ba sym NumericQuestion by (simp only:)
  from 1 2 3 4 5 show ?thesis by blast
next
  case (CheckboxQuestion i t opts)
  from checkbox_similarity[OF assms(2,3)[unfolded CheckboxQuestion]]
  obtain xs ys where ab: "content a = PList xs" "content b = PList ys" "xs \<noteq> []" "ys \<noteq> []"
    "get_similarity (CheckboxQuestion i t opts) a b
       = Inr (real (card (set xs \<inter> set ys)) / real (card (set xs \<union> set ys)))" by blast
  from checkbox_similarity[OF assms(3,2)[unfolded CheckboxQuestion]] ab(1,2)
  have ba: "get_similarity (CheckboxQuestion i t opts) b a
       = Inr (real (card (set ys \<inter> set xs)) / real (card (set ys \<union> set xs)))" by auto
  let ?s = "real (card (set xs \<inter> set ys)) / real (card (set xs \<union> set ys))"
  have le: "card (set xs \<inter> set ys) \<le> card (set xs \<union> set ys)"
    by (intro card_mono) auto
  have pos: "0 < card (set xs \<union> set ys)" using ab(3) by (simp add: card_gt_0_iff)
  have 1: "get_similarity q a b = Inr ?s" using ab(5) CheckboxQuestion by (simp only:)
  have "set ys \<inter> set xs = set xs \<inter> set ys" "set ys \<union> set xs = set xs \<union> set ys" by auto
  with ba have 2: "get_similarity q b a = Inr ?s" using CheckboxQuestion by (simp only:)
  have 3: "0 \<le> ?s" by simp
  have 4: "?s \<le> 1" using le pos by (simp add: divide_le_eq_1)
  have 5: "content a = content b \<longrightarrow> ?s = 1"
  proof
    assume "content a = content b"
    with ab(1,2) have "xs = ys" by simp
    with pos ab(4) show "?s = 1" by simp
  qed
  from 1 2 3 4 5 show ?thesis by blast
qed

theorem similarity_symmetric_bounded_witness:
  "get_similarity ex_checkbox (Answer (PList [PStr ''a'', PStr ''b'', PStr ''c'']))
       (Answer (PList [PStr ''c'', PStr ''b'', PStr ''d''])) = Inr (1 / 2)
   \<and> get_similarity ex_checkbox (Answer (PList [PStr ''c'', PStr ''b'', PStr ''d'']))
       (Answer (PList [PStr ''a'', PStr ''b'', PStr ''c''])) = Inr (1 / 2)"
proof -
  let ?a = "Answer (PList [PStr ''a'', PStr ''b'', PStr ''c''])"
  let ?b = "Answer (PList [PStr ''c'', PStr ''b'', PStr ''d''])"
  have p: "range_precondition ex_checkbox"
    by (simp add: range_precondition_def ex_checkbox_def)
  have va: "validate_answer ex_checkbox ?a = Inr True"
    by (simp add: ex_checkbox_def set_add_def py_in_def)
  have vb: "validate_answer ex_checkbox ?b = Inr True"
    by (simp add: ex_checkbox_def set_add_def py_in_def)
  have ab: "get_similarity ex_checkbox ?a ?b = Inr (1 / 2)"
    by (simp add: ex_checkbox_def set_add_def py_in_def set_union_def set_inter_def)
  from similarity_symmetric_bounded[OF p va vb] ab show ?thesis by auto
qed

section \<open>Which errors a criterion raises\<close>

lemma py_set_build_error: "py_set_build xs acc = Inl e \<Longrightarrow> e = TypeError"
  by (induction xs arbitrary: acc) (auto split: if_splits)

lemma py_set_error: "py_set v = Inl e \<Longrightarrow> e = TypeError"
  by (cases v) (auto dest: py_set_build_error)

lemma validate_answer_error: "validate_answer q a = Inl e \<Longrightarrow> e = TypeError"
  by (cases q; cases "content a")
     (auto split: if_splits sum.splits dest: py_set_build_error)

lemma get_similarity_error:
  "get_similarity q a b = Inl e \<Longrightarrow> e = TypeError \<or> e = ZeroDivisionError \<or> e = OverflowError"
  by (cases q)
     (auto simp: mc_similarity_def Let_def split: if_splits sum.splits option.splits
           dest: py_set_error int_true_divide_error)

lemma sim_row_error:
  "sim_row q a bs acc = Inl e \<Longrightarrow> e = TypeError \<or> e = ZeroDivisionError \<or> e = OverflowError"
proof (induction bs arbitrary: acc)
  case Nil
  then show ?case by simp
next
  case (Cons b bs)
  obtain tot cnt where acc: "acc = (tot, cnt)" by (cases acc)
  show ?case
  proof (cases "get_similarity q a b")
    case (Inl e')
    with Cons.prems acc have "e = e'" by simp
    with Inl show ?thesis by (auto dest: get_similarity_error)
  next
    case (Inr s)
    with Cons.prems acc have "sim_row q a bs (tot + s, cnt + 1) = Inl e" by simp
    then show ?thesis by (rule Cons.IH)
  qed
qed

lemma sim_pairs_error:
  "sim_pairs q answers acc = Inl e \<Longrightarrow>
     e = TypeError \<or> e = ZeroDivisionError \<or> e = OverflowError"
proof (induction answers arbitrary: acc)
  case Nil
  then show ?case by simp
next
  case (Cons a answers)
  show ?case
  proof (cases "sim_row q a answers acc")
    case (Inl e')
    with Cons.prems have "e = e'" by simp
    with Inl show ?thesis by (auto dest: sim_row_error)
  next
    case (Inr acc')
    with Cons.prems have "sim_pairs q answers acc' = Inl e" by simp
    then show ?thesis by (rule Cons.IH)
  qed
qed

lemma count_loop_error: "count_loop answers counts = Inl e \<Longrightarrow> e = TypeError"
  by (induction answers arbitrary: counts) (auto split: if_splits)

lemma validate_all_invalid_iff:
  "validate_all q answers = Inl InvalidAnswerError \<longleftrightarrow>
     (\<exists>i<length answers. validate_answer q (answers ! i) = Inr False
        \<and> (\<forall>j<i. validate_answer q (answers ! j) = Inr True))"
proof (induction answers)
  case Nil
  then show ?case by simp
next
  case (Cons a answers)
  show ?case
  proof (cases "validate_answer q a")
    case (Inl e)
    then have "e = TypeError" by (rule validate_answer_error)
    with Inl have l: "validate_all q (a # answers) \<noteq> Inl InvalidAnswerError"
      by (simp add: is_valid_def)
    have "\<not> (\<exists>i<length (a # answers). validate_answer q ((a # answers) ! i) = Inr False
        \<and> (\<forall>j<i. validate_answer q ((a # answers) ! j) = Inr True))"
    proof
      assume "\<exists>i<length (a # answers). validate_answer q ((a # answers) ! i) = Inr False
        \<and> (\<forall>j<i. validate_answer q ((a # answers) ! j) = Inr True)"
      then obtain i where i: "validate_answer q ((a # answers) ! i) = Inr False"
        "\<forall>j<i. validate_answer q ((a # answers) ! j) = Inr True" by blast
      show False
      proof (cases i)
        case 0
        with i(1) Inl show False by simp
      next
        case (Suc n)
        with i(2) have "validate_answer q ((a # answers) ! 0) = Inr True" by blast
        with Inl show False by simp
      qed
    qed
    with l show ?thesis by blast
  next
    case (Inr ok)
    show ?thesis
    proof (cases ok)
      case False
      with Inr have "validate_all q (a # answers) = Inl InvalidAnswerError"
        by (simp add: is_valid_def)
      moreover have "validate_answer q ((a # answers) ! 0) = Inr False \<and>
         (\<forall>j<0. validate_answer q ((a # answers) ! j) = Inr True)" using Inr False by simp
      then have "\<exists>i<length (a # answers). validate_answer q ((a # answers) ! i) = Inr False
        \<and> (\<forall>j<i. validate_answer q ((a # answers) ! j) = Inr True)" by (intro exI[of _ 0]) simp
      ultimately show ?thesis by blast
    next
      case True
      with Inr have a: "validate_answer q a = Inr True" by simp
      then have "validate_all q (a # answers) = validate_all q answers" by (simp add: is_valid_def)
      moreover have "(\<exists>i<length (a # answers). validate_answer q ((a # answers) ! i) = Inr False
        \<and> (\<forall>j<i. validate_answer q ((a # answers) ! j) = Inr True))
        \<longleftrightarrow> (\<exists>i<length answers. validate_answer q (answers ! i) = Inr False
        \<and> (\<forall>j<i. validate_answer q (answers ! j) = Inr True))" (is "?L \<longleftrightarrow> ?R")
      proof
        assume ?L
        then obtain i where i: "i < length (a # answers)"
          "validate_answer q ((a # answers) ! i) = Inr False"
          "\<forall>j<i. validate_answer q ((a # answers) ! j) = Inr True" by blast
        from i(2) a obtain n where n: "i = Suc n" by (cases i) auto
        have "\<forall>j<n. validate_answer q (answers ! j) = Inr True"
        proof (intro allI impI)
          fix j assume "j < n"
          then have "Suc j < i" using n by simp
          with i(3) have "validate_answer q ((a # answers) ! Suc j) = Inr True" by blast
          then show "validate_answer q (answers ! j) = Inr True" by simp
        qed
        with i(1,2) n show ?R by auto
      next
        assume ?R
        then obtain i where i: "i < length answers" "validate_answer q (answers ! i) = Inr False"
          "\<forall>j<i. validate_answer q (answers ! j) = Inr True" by blast
        have "\<forall>j<Suc i. validate_answer q ((a # answers) ! j) = Inr True"
        proof (intro allI impI)
          fix j assume "j < Suc i"
          then show "validate_answer q ((a # answers) ! j) = Inr True"
            using a i(3) by (cases j) auto
        qed
        with i(1,2) show ?L by (intro exI[of _ "Suc i"]) simp
      qed
      ultimately show ?thesis using Cons.IH by simp
    qed
  qed
qed

lemma score_answers_invalid_iff:
  "score_answers c q answers = Inl InvalidAnswerError \<longleftrightarrow> validate_all q answers = Inl InvalidAnswerError"
proof -
  have hom: "homogeneous_score_answers q answers = Inl InvalidAnswerError
      \<longleftrightarrow> validate_all q answers = Inl InvalidAnswerError"
    by (auto simp: homogeneous_score_answers_def split: sum.splits if_splits dest: sim_pairs_error)
  have het: "heterogeneous_score_answers q answers = Inl InvalidAnswerError
      \<longleftrightarrow> homogeneous_score_answers q answers = Inl InvalidAnswerError"
    by (auto simp: heterogeneous_score_answers_def split: sum.splits)
  have lon: "lonely_member_score_answers q answers = Inl InvalidAnswerError
      \<longleftrightarrow> validate_all q answers = Inl InvalidAnswerError"
    by (auto simp: lonely_member_score_answers_def split: sum.splits if_splits dest: count_loop_error)
  show ?thesis using hom het lon by (cases c) simp_all
qed

lemma validate_all_invalid_iff_total:
  assumes "\<forall>a\<in>set answers. \<exists>ok. validate_answer q a = Inr ok"
  shows "validate_all q answers = Inl InvalidAnswerError
     \<longleftrightarrow> (\<exists>a\<in>set answers. validate_answer q a = Inr False)"
  using assms
proof (induction answers)
  case Nil
  then show ?case by simp
next
  case (Cons a answers)
  then obtain ok where ok: "validate_answer q a = Inr ok" by auto
  from Cons have IH: "validate_all q answers = Inl InvalidAnswerError
     \<longleftrightarrow> (\<exists>a\<in>set answers. validate_answer q a = Inr False)" by simp
  show ?case
  proof (cases ok)
    case True
    with ok IH show ?thesis by (simp add: is_valid_def)
  next
    case False
    with ok show ?thesis by (simp add: is_valid_def)
  qed
qed

lemma score_answers_invalid_iff_total:
  assumes "\<forall>a\<in>set answers. \<exists>ok. validate_answer q a = Inr ok"
  shows "score_answers c q answers = Inl InvalidAnswerError
     \<longleftrightarrow> (\<exists>a\<in>set answers. validate_answer q a = Inr False)"
  using validate_all_invalid_iff_total[OF assms]
  by (simp only: score_answers_invalid_iff)

text \<open>
  C6 (\<^verbatim>\<open>score_answers\<close> raises \<^verbatim>\<open>InvalidAnswerError\<close> iff some answer fails
  \<^verbatim>\<open>validate_answer\<close>, for every criterion) at an input where the code does otherwise: the
  first answer is a checkbox content with a list among its items, on which
  \<^verbatim>\<open>set(content)\<close> raises \<^verbatim>\<open>TypeError\<close> before the items are looked at; the second answer
  is rejected by \<^verbatim>\<open>validate_answer\<close>; every criterion raises \<^verbatim>\<open>TypeError\<close>, not
  \<^verbatim>\<open>InvalidAnswerError\<close>.  Where \<^verbatim>\<open>validate_answer\<close> returns a verdict on every answer the
  claim holds (\<open>score_answers_invalid_iff_total\<close>), and the error is the result of the call.
\<close>

theorem score_answers_unhashable_item:
  "validate_answer ex_checkbox (Answer (PList [PList [PStr ''a'']])) = Inl TypeError
   \<and> validate_answer ex_checkbox (Answer (PStr ''x'')) = Inr False
   \<and> score_answers HomogeneousCriterion ex_checkbox
        [Answer (PList [PList [PStr ''a'']]), Answer (PStr ''x'')] = Inl TypeError
   \<and> score_answers HeterogeneousCriterion ex_checkbox
        [Answer (PList [PList [PStr ''a'']]), Answer (PStr ''x'')] = Inl TypeError
   \<and> score_answers LonelyMemberCriterion ex_checkbox
        [Answer (PList [PList [PStr ''a'']]), Answer (PStr ''x'')] = Inl TypeError"
  by (simp add: ex_checkbox_def homogeneous_score_answers_def heterogeneous_score_answers_def
      lonely_member_score_answers_def is_valid_def)

section \<open>Homogeneous and heterogeneous criteria\<close>

lemma similarity_defined:
  assumes "range_precondition q"
      and "validate_answer q a = Inr True" and "validate_answer q b = Inr True"
  shows "\<exists>s. get_similarity q a b = Inr s"
proof (cases q)
  case (MultipleChoiceQuestion i t opts)
  then show ?thesis by (simp add: mc_similarity_def)
next
  case (YesNoQuestion i t)
  then show ?thesis by (simp add: mc_similarity_def)
next
  case (NumericQuestion i t lo hi)
  with assms have "lo < hi"
    and "validate_answer (NumericQuestion i t lo hi) a = Inr True"
    and "validate_answer (NumericQuestion i t lo hi) b = Inr True"
    by (simp_all add: range_precondition_def)
  from numeric_similarity_valid[OF this] NumericQuestion show ?thesis by auto
next
  case (CheckboxQuestion i t opts)
  with checkbox_similarity[of i t opts a b] assms(2,3) show ?thesis by auto
qed

lemma validate_all_ok:
  "(\<forall>a\<in>set answers. validate_answer q a = Inr True) \<Longrightarrow> validate_all q answers = Inr ()"
  by (induction answers) (auto simp: is_valid_def)

lemma sim_row_defined:
  assumes "range_precondition q" and "validate_answer q a = Inr True"
      and "\<forall>b\<in>set bs. validate_answer q b = Inr True"
  shows "\<exists>tot'. sim_row q a bs (tot, cnt) = Inr (tot', cnt + length bs)"
  using assms(3)
proof (induction bs arbitrary: tot cnt)
  case Nil
  then show ?case by simp
next
  case (Cons b bs)
  then obtain s where s: "get_similarity q a b = Inr s"
    using similarity_defined[OF assms(1,2), of b] by auto
  from Cons.IH[of "tot + s" "cnt + 1"] Cons.prems
  obtain tot' where "sim_row q a bs (tot + s, cnt + 1) = Inr (tot', cnt + 1 + length bs)" by auto
  with s show ?case by simp
qed

lemma sim_pairs_defined:
  assumes "range_precondition q" and "\<forall>a\<in>set answers. validate_answer q a = Inr True"
  shows "\<exists>tot' cnt'. sim_pairs q answers (tot, cnt) = Inr (tot', cnt') \<and> cnt + (length answers - 1) \<le> cnt'"
  using assms(2)
proof (induction answers arbitrary: tot cnt)
  case Nil
  then show ?case by simp
next
  case (Cons a answers)
  from sim_row_defined[OF assms(1), of a answers tot cnt] Cons.prems
  obtain t1 where t1: "sim_row q a answers (tot, cnt) = Inr (t1, cnt + length answers)" by auto
  from Cons.IH[of t1 "cnt + length answers"] Cons.prems
  obtain t2 c2 where "sim_pairs q answers (t1, cnt + length answers) = Inr (t2, c2)"
    "cnt + length answers + (length answers - 1) \<le> c2" by auto
  with t1 show ?case by simp
qed

lemma homogeneous_score_defined:
  assumes "range_precondition q" and "answers \<noteq> []"
      and "\<forall>a\<in>set answers. validate_answer q a = Inr True"
  shows "\<exists>h. homogeneous_score_answers q answers = Inr h"
proof -
  have v: "validate_all q answers = Inr ()" using assms(3) by (rule validate_all_ok)
  show ?thesis
  proof (cases "length answers = 1")
    case True
    with v show ?thesis by (simp add: homogeneous_score_answers_def)
  next
    case False
    with assms(2) have len: "2 \<le> length answers"
      by (cases "length answers") auto
    from sim_pairs_defined[OF assms(1,3), of 0 0]
    obtain tot' cnt' where p: "sim_pairs q answers (0, 0) = Inr (tot', cnt')"
      "length answers - 1 \<le> cnt'" by auto
    with len have "cnt' \<noteq> 0" by simp
    with v False p show ?thesis by (simp add: homogeneous_score_answers_def)
  qed
qed

text \<open>
  C5: for every question and every non-empty list of answers all valid for it, the
  homogeneous and the heterogeneous criterion both return a score, and the two scores
  sum to exactly 1.  A numeric question is taken with \<^verbatim>\<open>min < max\<close>.
\<close>

theorem homogeneous_heterogeneous_sum:
  assumes "range_precondition q" and "answers \<noteq> []"
      and "\<forall>a\<in>set answers. validate_answer q a = Inr True"
  shows "\<exists>h g. score_answers HomogeneousCriterion q answers = Inr h
             \<and> score_answers HeterogeneousCriterion q answers = Inr g \<and> h + g = 1"
proof -
  from homogeneous_score_defined[OF assms]
  obtain h where h: "homogeneous_score_answers q answers = Inr h" ..
  then have "heterogeneous_score_answers q answers = Inr (1 - h)"
    by (simp add: heterogeneous_score_answers_def)
  with h show ?thesis by simp
qed

theorem homogeneous_heterogeneous_sum_witness:
  "score_answers HomogeneousCriterion ex_yesno
       [Answer (PBool True), Answer (PBool True), Answer (PBool False)] = Inr (1 / 3)
   \<and> score_answers HeterogeneousCriterion ex_yesno
       [Answer (PBool True), Answer (PBool True), Answer (PBool False)] = Inr (2 / 3)"
proof -
  let ?as = "[Answer (PBool True), Answer (PBool True), Answer (PBool False)]"
  have p: "range_precondition ex_yesno" by (simp add: range_precondition_def ex_yesno_def)
  have ne: "?as \<noteq> []" by simp
  have v: "\<forall>a\<in>set ?as. validate_answer ex_yesno a = Inr True" by (simp add: ex_yesno_def)
  have h: "score_answers HomogeneousCriterion ex_yesno ?as = Inr (1 / 3)"
    by (simp add: ex_yesno_def homogeneous_score_answers_def is_valid_def mc_similarity_def)
  from homogeneous_heterogeneous_sum[OF p ne v] h show ?thesis by auto
qed

section \<open>The lonely-member criterion\<close>

lemma py_eq_list_trans:
  "(\<forall>x\<in>set xs. \<forall>y z. py_eq x y \<longrightarrow> py_eq y z \<longrightarrow> py_eq x z) \<Longrightarrow>
     py_eq_list xs ys \<Longrightarrow> py_eq_list ys zs \<Longrightarrow> py_eq_list xs zs"
proof (induction xs arbitrary: ys zs)
  case Nil
  then show ?case by (cases ys; cases zs) auto
next
  case (Cons x xs)
  from Cons.prems(2) obtain y ys' where ys: "ys = y # ys'" by (cases ys) auto
  from Cons.prems(3) ys obtain z zs' where zs: "zs = z # zs'" by (cases zs) auto
  from Cons.prems ys zs have "py_eq x z" by auto
  moreover from Cons.prems ys zs have "py_eq_list xs zs'"
    by (intro Cons.IH[of ys' zs']) auto
  ultimately show ?case using zs by simp
qed

lemma py_eq_trans: "py_eq x y \<Longrightarrow> py_eq y z \<Longrightarrow> py_eq x z"
proof (induction x arbitrary: y z)
  case PNone
  then show ?case by (cases y; cases z) auto
next
  case (PBool a)
  then show ?case by (cases y; cases z) (auto split: if_splits)
next
  case (PInt i)
  then show ?case by (cases y; cases z) (auto split: if_splits)
next
  case (PStr s)
  then show ?case by (cases y; cases z) auto
next
  case (PList xs)
  from PList.prems(1) obtain ys where y: "y = PList ys" by (cases y) auto
  from PList.prems(2) y obtain zs where z: "z = PList zs" by (cases z) auto
  have "py_eq_list xs zs"
  proof (rule py_eq_list_trans)
    show "\<forall>x\<in>set xs. \<forall>y z. py_eq x y \<longrightarrow> py_eq y z \<longrightarrow> py_eq x z"
      using PList.IH by blast
    show "py_eq_list xs ys" using PList.prems(1) y by simp
    show "py_eq_list ys zs" using PList.prems(2) y z by simp
  qed
  then show ?case using z by simp
qed

lemma py_eq_cong_right: "py_eq c c' \<Longrightarrow> py_eq k c = py_eq k c'"
  using py_eq_trans py_eq_sym by blast

lemma counts_get_cong: "py_eq c c' \<Longrightarrow> counts_get d c dflt = counts_get d c' dflt"
  by (induction d) (auto simp: py_eq_cong_right)

lemma counts_get_set:
  "counts_get (counts_set d c v) c' dflt = (if py_eq c c' then v else counts_get d c' dflt)"
proof (induction d)
  case Nil
  then show ?case by simp
next
  case (Cons p d)
  obtain k n where p: "p = (k, n)" by (cases p)
  show ?case
  proof (cases "py_eq k c")
    case True
    then have "py_eq k c' = py_eq c c'"
      using py_eq_trans py_eq_sym by blast
    with True p show ?thesis by simp
  next
    case False
    then have "py_eq c c' \<Longrightarrow> \<not> py_eq k c'"
      using py_eq_trans py_eq_sym by blast
    with False p Cons.IH show ?thesis by auto
  qed
qed

lemma counts_set_keys: "fst ` set (counts_set d c v) \<subseteq> insert c (fst ` set d)"
proof (induction d)
  case Nil
  then show ?case by simp
next
  case (Cons p d)
  obtain k n where p: "p = (k, n)" by (cases p)
  show ?case
  proof (cases "py_eq k c")
    case True
    with p show ?thesis by auto
  next
    case False
    then have "fst ` set (counts_set (p # d) c v) = insert k (fst ` set (counts_set d c v))"
      using p by simp
    with Cons.IH p show ?thesis by auto
  qed
qed

lemma counts_ok_set: "counts_ok d \<Longrightarrow> counts_ok (counts_set d c v)"
proof (induction d)
  case Nil
  then show ?case by simp
next
  case (Cons p d)
  obtain k n where p: "p = (k, n)" by (cases p)
  show ?case
  proof (cases "py_eq k c")
    case True
    with Cons.prems p show ?thesis by simp
  next
    case False
    have "\<forall>q\<in>set (counts_set d c v). \<not> py_eq k (fst q)"
    proof
      fix q assume "q \<in> set (counts_set d c v)"
      then have "fst q \<in> insert c (fst ` set d)" using counts_set_keys[of d c v] by auto
      then show "\<not> py_eq k (fst q)" using False Cons.prems p by auto
    qed
    with False Cons p show ?thesis by simp
  qed
qed

lemma counts_ok_entry: "counts_ok d \<Longrightarrow> (k, n) \<in> set d \<Longrightarrow> counts_get d k dflt = n"
proof (induction d)
  case Nil
  then show ?case by simp
next
  case (Cons p d)
  obtain k' n' where p: "p = (k', n')" by (cases p)
  show ?case
  proof (cases "(k, n) = p")
    case True
    with p show ?thesis by (simp add: py_eq_refl)
  next
    case False
    with Cons.prems have mem: "(k, n) \<in> set d" by simp
    with Cons.prems(1) p have "\<not> py_eq k' k" by force
    with Cons p mem show ?thesis by simp
  qed
qed

lemma counts_get_entry:
  "counts_get d c 0 \<noteq> 0 \<Longrightarrow> counts_get d c 0 \<in> snd ` set d"
  by (induction d) (auto split: if_splits)

lemma occurrences_Cons:
  "occurrences c (a # answers) = (if py_eq (content a) c then 1 else 0) + occurrences c answers"
  by (simp add: occurrences_def)

lemma count_loop_hashable:
  assumes "\<forall>a\<in>set answers. hashable (content a)"
  shows "\<exists>d'. count_loop answers d = Inr d'
     \<and> (\<forall>c. counts_get d' c 0 = counts_get d c 0 + occurrences c answers)
     \<and> (counts_ok d \<longrightarrow> counts_ok d')
     \<and> fst ` set d' \<subseteq> fst ` set d \<union> content ` set answers"
  using assms
proof (induction answers arbitrary: d)
  case Nil
  then show ?case by (simp add: occurrences_def)
next
  case (Cons a answers)
  let ?c = "content a"
  let ?d1 = "counts_set d ?c (counts_get d ?c 0 + 1)"
  from Cons.prems have h: "hashable ?c" and rest: "\<forall>a\<in>set answers. hashable (content a)" by auto
  from Cons.IH[OF rest, of ?d1] obtain d' where d':
    "count_loop answers ?d1 = Inr d'"
    "\<forall>c. counts_get d' c 0 = counts_get ?d1 c 0 + occurrences c answers"
    "counts_ok ?d1 \<longrightarrow> counts_ok d'"
    "fst ` set d' \<subseteq> fst ` set ?d1 \<union> content ` set answers" by blast
  have 1: "count_loop (a # answers) d = Inr d'" using h d'(1) by simp
  have 2: "\<forall>c. counts_get d' c 0 = counts_get d c 0 + occurrences c (a # answers)"
  proof
    fix c
    have "counts_get ?d1 c 0 = counts_get d c 0 + (if py_eq ?c c then 1 else 0)"
      using counts_get_cong[of ?c c d 0] by (simp add: counts_get_set)
    with d'(2) show "counts_get d' c 0 = counts_get d c 0 + occurrences c (a # answers)"
      by (simp add: occurrences_Cons)
  qed
  have 3: "counts_ok d \<longrightarrow> counts_ok d'" using d'(3) counts_ok_set by blast
  have 4: "fst ` set d' \<subseteq> fst ` set d \<union> content ` set (a # answers)"
    using d'(4) counts_set_keys[of d ?c "counts_get d ?c 0 + 1"] by auto
  from 1 2 3 4 show ?case by blast
qed

lemma freq_loop_eq: "freq_loop freqs = (if 1 \<in> set freqs then 0 else 1)"
  by (induction freqs) auto

lemma lonely_member_hashable:
  assumes "\<forall>a\<in>set answers. validate_answer q a = Inr True"
      and "\<forall>a\<in>set answers. hashable (content a)"
  shows "lonely_member_score_answers q answers
       = Inr (if \<exists>a\<in>set answers. occurrences (content a) answers = 1 then 0 else 1)"
proof -
  have v: "validate_all q answers = Inr ()"
    using assms(1) by (induction answers) (auto simp: is_valid_def)
  from count_loop_hashable[OF assms(2), of "[]"] obtain d where d:
    "count_loop answers [] = Inr d"
    "\<forall>c. counts_get d c 0 = occurrences c answers"
    "counts_ok d"
    "fst ` set d \<subseteq> content ` set answers" by auto
  have iff: "1 \<in> set (map snd d) \<longleftrightarrow> (\<exists>a\<in>set answers. occurrences (content a) answers = 1)"
  proof
    assume "1 \<in> set (map snd d)"
    then obtain k where k: "(k, 1) \<in> set d" by auto
    with d(3) have "counts_get d k 0 = 1" by (rule counts_ok_entry)
    with d(2) have "occurrences k answers = 1" by simp
    moreover from k d(4) obtain a where "a \<in> set answers" "k = content a" by force
    ultimately show "\<exists>a\<in>set answers. occurrences (content a) answers = 1" by auto
  next
    assume "\<exists>a\<in>set answers. occurrences (content a) answers = 1"
    then obtain a where "a \<in> set answers" "occurrences (content a) answers = 1" by blast
    with d(2) have g: "counts_get d (content a) 0 = 1" by simp
    then have "counts_get d (content a) 0 \<in> snd ` set d" by (intro counts_get_entry) simp
    with g show "1 \<in> set (map snd d)" by simp
  qed
  show ?thesis
  proof (cases "length answers = 1")
    case True
    then obtain a where a: "answers = [a]" by (cases answers) auto
    then have "occurrences (content a) answers = 1" by (simp add: occurrences_def py_eq_refl)
    with a v show ?thesis by (simp add: lonely_member_score_answers_def)
  next
    case False
    with v d(1) iff show ?thesis
      by (simp add: lonely_member_score_answers_def freq_loop_eq)
  qed
qed

lemma score_answers_defined:
  assumes "range_precondition q" and "answers \<noteq> []"
      and "\<forall>a\<in>set answers. validate_answer q a = Inr True"
      and "c = LonelyMemberCriterion \<longrightarrow> (\<forall>a\<in>set answers. hashable (content a))"
  shows "\<exists>r. score_answers c q answers = Inr r"
proof (cases c)
  case HomogeneousCriterion
  with homogeneous_score_defined[OF assms(1-3)] show ?thesis by simp
next
  case HeterogeneousCriterion
  from homogeneous_score_defined[OF assms(1-3)]
  obtain h where "homogeneous_score_answers q answers = Inr h" ..
  with HeterogeneousCriterion show ?thesis by (simp add: heterogeneous_score_answers_def)
next
  case LonelyMemberCriterion
  with assms(4) have "\<forall>a\<in>set answers. hashable (content a)" by simp
  from lonely_member_hashable[OF assms(3) this] LonelyMemberCriterion show ?thesis by simp
qed

text \<open>
  C3 (the lonely-member score is 0 iff some content occurs exactly once, 1 iff every
  content occurs at least twice, for all content types alike) at an input where the code
  does otherwise: two valid checkbox answers with the same content.  A valid checkbox
  content is a list, a list is no dictionary key, and \<^verbatim>\<open>counts.get\<close> raises \<^verbatim>\<open>TypeError\<close>
  where the claim has the score 1.  For hashable content (single-choice, yes/no and
  numeric answers) the claim holds (\<open>lonely_member_hashable\<close>).
\<close>

theorem lonely_member_checkbox_type_error:
  "validate_answer ex_checkbox (Answer (PList [PStr ''a''])) = Inr True
   \<and> occurrences (PList [PStr ''a'']) [Answer (PList [PStr ''a'']), Answer (PList [PStr ''a''])] = 2
   \<and> score_answers LonelyMemberCriterion ex_checkbox
        [Answer (PList [PStr ''a'']), Answer (PList [PStr ''a''])] = Inl TypeError"
  by (simp add: ex_checkbox_def lonely_member_score_answers_def is_valid_def set_add_def py_in_def
      occurrences_def)

section \<open>Students and enrolment\<close>

lemma enroll_conflict_iff:
  "enroll_conflict ids sts \<longleftrightarrow> (\<exists>s\<in>set sts. student_id s \<in> set ids)"
  by (induction sts) auto

text \<open>
  C9, as the code has it: when \<^verbatim>\<open>enroll_students\<close> is called with a batch containing a
  student whose id is the id of an enrolled student, the course is left unchanged, no
  exception is raised, and the call returns \<^verbatim>\<open>None\<close>.
\<close>

theorem enroll_duplicate_unchanged:
  assumes "\<exists>s\<in>set sts. \<exists>e\<in>set (students c). student_id s = student_id e"
  shows "enroll_students c sts = (c, PNone)"
proof -
  from assms have "enroll_conflict (map student_id (students c)) sts"
    unfolding enroll_conflict_iff by force
  then show ?thesis by (simp add: enroll_students_def)
qed

theorem enroll_duplicate_unchanged_witness:
  "enroll_students ex_enrolled ex_batch = (ex_enrolled, PNone)"
proof -
  have "\<exists>s\<in>set ex_batch. \<exists>e\<in>set (students ex_enrolled). student_id s = student_id e"
    by (simp add: ex_batch_def ex_enrolled_def)
  then show ?thesis by (rule enroll_duplicate_unchanged)
qed

text \<open>
  C9 as stated fails: on the rejected batch the call returns \<^verbatim>\<open>None\<close>, which is no boolean
  and is the value a successful call returns too.
\<close>

theorem enroll_result_not_boolean:
  "snd (enroll_students ex_enrolled ex_batch) \<noteq> PBool False
   \<and> snd (enroll_students ex_enrolled ex_batch) \<noteq> PBool True
   \<and> snd (enroll_students ex_enrolled ex_batch) = snd (enroll_students ex_enrolled (tl ex_batch))
   \<and> fst (enroll_students ex_enrolled (tl ex_batch)) \<noteq> ex_enrolled"
  by (simp add: enroll_students_def ex_enrolled_def ex_batch_def)

text \<open>
  C10: \<^verbatim>\<open>has_answer\<close> is true exactly when the student has an answer recorded under the
  question's id; recording any answer, valid for the question or not, makes it true.
\<close>

theorem has_answer_iff_recorded:
  "(has_answer s q \<longleftrightarrow> (\<exists>a. get_answer s q = Some a))
   \<and> has_answer (set_answer s q a) q
   \<and> get_answer (set_answer s q a) q = Some a"
proof -
  have "has_answer s q \<longleftrightarrow> (\<exists>a. get_answer s q = Some a)"
    using map_of_eq_None_iff[of "student_answers s" "question_id q"]
    by (cases "map_of (student_answers s) (question_id q)")
       (auto simp: has_answer_def get_answer_def)
  moreover have "has_answer (set_answer s q a) q"
    using AList.dom_update[of "question_id q" a "student_answers s"]
    by (simp add: has_answer_def set_answer_def)
  moreover have "get_answer (set_answer s q a) q = Some a"
    by (simp add: get_answer_def set_answer_def AList.update_conv')
  ultimately show ?thesis by blast
qed

theorem has_answer_iff_recorded_witness:
  "validate_answer ex_yesno (Answer (PStr ''yes'')) = Inr False
   \<and> has_answer (set_answer \<lparr>student_id = 1, student_name = ''A'', student_answers = []\<rparr>
        ex_yesno (Answer (PStr ''yes''))) ex_yesno"
  using has_answer_iff_recorded
    [of "\<lparr>student_id = 1, student_name = ''A'', student_answers = []\<rparr>" ex_yesno "Answer (PStr ''yes'')"]
  by (simp add: ex_yesno_def)

section \<open>Scoring a list of students\<close>

lemma getitems_lookup:
  "getitems d ks = Inr vs \<Longrightarrow> list_all2 (\<lambda>k v. map_of d k = Some v) ks vs"
proof (induction ks arbitrary: vs)
  case Nil
  then show ?case by simp
next
  case (Cons k ks)
  then show ?case
    by (auto simp: dict_getitem_def split: option.splits sum.splits)
qed

lemma getitems_total:
  "set ks \<subseteq> fst ` set d \<Longrightarrow> \<exists>vs. getitems d ks = Inr vs"
proof (induction ks)
  case Nil
  then show ?case by simp
next
  case (Cons k ks)
  then obtain vs where "getitems d ks = Inr vs" by auto
  moreover from Cons.prems obtain v where "map_of d k = Some v"
    by (cases "map_of d k") (auto simp: map_of_eq_None_iff)
  ultimately show ?case by (simp add: dict_getitem_def)
qed

lemma get_questions_total: "\<exists>qs. get_questions sv = Inr qs"
  unfolding get_questions_def by (rule getitems_total) simp

lemma get_questions_ids:
  assumes "survey_inv sv" and "get_questions sv = Inr qs"
  shows "map question_id qs = sort (map fst (questions sv))"
proof -
  from assms(2) have "list_all2 (\<lambda>k q. map_of (questions sv) k = Some q)
      (sort (map fst (questions sv))) qs"
    unfolding get_questions_def by (rule getitems_lookup)
  then have "list_all2 (\<lambda>k q. question_id q = k) (sort (map fst (questions sv))) qs"
  proof (rule list_all2_mono)
    fix k q assume "map_of (questions sv) k = Some q"
    then have "(k, q) \<in> set (questions sv)" by (rule map_of_SomeD)
    with assms(1) show "question_id q = k" by (auto simp: survey_inv_def)
  qed
  then show ?thesis
    by (induction rule: list_all2_induct) auto
qed

lemma get_questions_set:
  assumes "survey_inv sv" and "get_questions sv = Inr qs"
  shows "set qs = snd ` set (questions sv)"
proof -
  let ?d = "questions sv"
  from assms(1) have dist: "distinct (map fst ?d)" by (simp add: survey_inv_def)
  from assms(2) have l: "list_all2 (\<lambda>k q. map_of ?d k = Some q) (sort (map fst ?d)) qs"
    unfolding get_questions_def by (rule getitems_lookup)
  show ?thesis
  proof (intro equalityI subsetI)
    fix q assume "q \<in> set qs"
    with l obtain k where "map_of ?d k = Some q"
      by (auto simp: list_all2_conv_all_nth in_set_conv_nth)
    then have "(k, q) \<in> set ?d" by (rule map_of_SomeD)
    then show "q \<in> snd ` set ?d" by force
  next
    fix q assume "q \<in> snd ` set ?d"
    then obtain k where kq: "(k, q) \<in> set ?d" by auto
    then have "k \<in> set (sort (map fst ?d))" by force
    then obtain n where n: "n < length (sort (map fst ?d))" "sort (map fst ?d) ! n = k"
      unfolding in_set_conv_nth by blast
    with l have "map_of ?d k = Some (qs ! n)" "n < length qs"
      by (auto simp: list_all2_conv_all_nth)
    moreover from dist kq have "map_of ?d k = Some q" by simp
    ultimately show "q \<in> set qs" by auto
  qed
qed

lemma score_loop_sum:
  assumes "list_all2 (\<lambda>q r. \<exists>c answers. map_of (criteria sv) (question_id q) = Some c
              \<and> get_ans sts q = Some answers \<and> score_answers c q answers = Inr r) qs rs"
      and "list_all2 (\<lambda>q w. map_of (weights sv) (question_id q) = Some w
              \<and> \<bar>w\<bar> < float_overflow_bound) qs ws"
  shows "score_loop sv sts qs tot
       = Inr ((tot + sum_list (map2 (\<lambda>r w. r * real_of_int w) rs ws)) / real (length (questions sv)))"
  using assms
proof (induction qs arbitrary: rs ws tot)
  case Nil
  then show ?case by simp
next
  case (Cons q qs)
  from Cons.prems(1) obtain r rs' where rs: "rs = r # rs'"
    and r: "\<exists>c answers. map_of (criteria sv) (question_id q) = Some c
              \<and> get_ans sts q = Some answers \<and> score_answers c q answers = Inr r"
    and rest1: "list_all2 (\<lambda>q r. \<exists>c answers. map_of (criteria sv) (question_id q) = Some c
              \<and> get_ans sts q = Some answers \<and> score_answers c q answers = Inr r) qs rs'"
    by (auto simp: list_all2_Cons1)
  from Cons.prems(2) obtain w ws' where ws: "ws = w # ws'"
    and w: "map_of (weights sv) (question_id q) = Some w" "\<bar>w\<bar> < float_overflow_bound"
    and rest2: "list_all2 (\<lambda>q w. map_of (weights sv) (question_id q) = Some w
              \<and> \<bar>w\<bar> < float_overflow_bound) qs ws'"
    by (auto simp: list_all2_Cons1)
  from r obtain c answers where c: "map_of (criteria sv) (question_id q) = Some c"
    "get_ans sts q = Some answers" "score_answers c q answers = Inr r" by blast
  have gc: "get_criterion sv q = Inr c" using c(1) by (simp add: get_criterion_def dict_getitem_def)
  have gw: "get_weight sv q = Inr w" using w(1) by (simp add: get_weight_def dict_getitem_def)
  have fw: "float_of_int w = Inr (real_of_int w)" using w(2) by (rule float_of_int_small)
  have "score_loop sv sts (q # qs) tot = score_loop sv sts qs (tot + r * real_of_int w)"
    using c(2,3) gc gw fw by simp
  also have "\<dots> = Inr ((tot + r * real_of_int w + sum_list (map2 (\<lambda>r w. r * real_of_int w) rs' ws'))
      / real (length (questions sv)))"
    by (rule Cons.IH[OF rest1 rest2])
  finally show ?case by (simp add: rs ws add.assoc)
qed

lemma set_update_subset: "set (AList.update k v al) \<subseteq> insert (k, v) (set al)"
  by (induction al) auto

lemma keys_update: "set (map fst (AList.update k v al)) = insert k (set (map fst al))"
  using AList.dom_update[of k v al] by simp

lemma survey_inv_add:
  "survey_inv sv \<Longrightarrow> survey_inv (survey_add sv qs)"
proof (induction qs arbitrary: sv)
  case Nil
  then show ?case by simp
next
  case (Cons q qs)
  let ?sv = "\<lparr>questions = AList.update (question_id q) q (questions sv),
              criteria = AList.update (question_id q) HomogeneousCriterion (criteria sv),
              weights = AList.update (question_id q) 1 (weights sv)\<rparr>"
  from Cons.prems have d: "distinct (map fst (questions ?sv))"
    by (simp add: survey_inv_def AList.distinct_update)
  have "\<forall>(k, q')\<in>set (questions ?sv). question_id q' = k"
  proof (intro ballI)
    fix p assume "p \<in> set (questions ?sv)"
    then have "p = (question_id q, q) \<or> p \<in> set (questions sv)"
      using set_update_subset[of "question_id q" q "questions sv"] by auto
    then show "case p of (k, q') \<Rightarrow> question_id q' = k"
      using Cons.prems by (auto simp: survey_inv_def)
  qed
  moreover from Cons.prems have "set (map fst (criteria ?sv)) = set (map fst (questions ?sv))"
    "set (map fst (weights ?sv)) = set (map fst (questions ?sv))"
    by (simp_all only: survey.simps keys_update survey_inv_def)
  ultimately have "survey_inv ?sv" using d unfolding survey_inv_def by blast
  then have "survey_inv (survey_add ?sv qs)" by (rule Cons.IH)
  then show ?case by simp
qed

lemma survey_inv_Survey: "survey_inv (Survey qs)"
  unfolding Survey_def by (rule survey_inv_add) (simp add: survey_inv_def)

lemma survey_inv_set_weight: "survey_inv sv \<Longrightarrow> survey_inv (fst (set_weight sv w q))"
  by (auto simp: set_weight_def survey_inv_def keys_update simp del: set_map)

lemma survey_inv_set_criterion: "survey_inv sv \<Longrightarrow> survey_inv (fst (set_criterion sv c q))"
  by (auto simp: set_criterion_def survey_inv_def keys_update simp del: set_map)

lemma dict_getitem_defined: "k \<in> set (map fst d) \<Longrightarrow> \<exists>v. dict_getitem d k = Inr v"
  by (cases "map_of d k") (auto simp: dict_getitem_def map_of_eq_None_iff)

lemma survey_lookups_defined:
  assumes "survey_inv sv" and "get_questions sv = Inr qs" and "q \<in> set qs"
  shows "\<exists>c w. get_criterion sv q = Inr c \<and> get_weight sv q = Inr w"
proof -
  from assms(2) have "list_all2 (\<lambda>k q. map_of (questions sv) k = Some q)
      (sort (map fst (questions sv))) qs"
    unfolding get_questions_def by (rule getitems_lookup)
  with assms(3) obtain k where "map_of (questions sv) k = Some q"
    by (auto simp: list_all2_conv_all_nth in_set_conv_nth)
  then have "(k, q) \<in> set (questions sv)" by (rule map_of_SomeD)
  with assms(1) have "question_id q \<in> set (map fst (questions sv))"
    by (force simp: survey_inv_def)
  with assms(1) have "question_id q \<in> set (map fst (criteria sv))"
    "question_id q \<in> set (map fst (weights sv))" by (simp_all only: survey_inv_def)
  then show ?thesis
    unfolding get_criterion_def get_weight_def by (blast dest: dict_getitem_defined)
qed

text \<open>
  Where every question's own criterion returns a score and every weight converts to a
  float, \<^verbatim>\<open>score_students\<close> returns, in the model's exact arithmetic, the sum over the
  questions of score times weight, divided by the number of questions; the questions
  come in strictly increasing id order, all of them.  On valid answers a criterion returns
  a score unless it is the lonely-member criterion on unhashable content
  (\<open>score_answers_defined\<close>); criterion and weight exist by the invariant
  (\<open>survey_lookups_defined\<close>), which every survey built by the constructor and the setters
  satisfies (\<open>survey_inv_Survey\<close>, \<open>survey_inv_set_weight\<close>, \<open>survey_inv_set_criterion\<close>).
\<close>

lemma score_students_weighted_sum:
  assumes "survey_inv sv" and "questions sv \<noteq> []"
      and "get_questions sv = Inr qs"
      and "list_all2 (\<lambda>q r. \<exists>c answers. map_of (criteria sv) (question_id q) = Some c
              \<and> get_ans sts q = Some answers \<and> score_answers c q answers = Inr r) qs rs"
      and "list_all2 (\<lambda>q w. map_of (weights sv) (question_id q) = Some w
              \<and> \<bar>w\<bar> < float_overflow_bound) qs ws"
  shows "sorted_wrt (<) (map question_id qs) \<and> set qs = snd ` set (questions sv)
       \<and> score_students sv sts
           = Inr (sum_list (map2 (\<lambda>r w. r * real_of_int w) rs ws) / real (length (questions sv)))"
proof -
  have "map question_id qs = sort (map fst (questions sv))"
    using assms(1,3) by (rule get_questions_ids)
  moreover have "distinct (map fst (questions sv))" using assms(1) by (simp add: survey_inv_def)
  ultimately have 1: "sorted_wrt (<) (map question_id qs)"
    by (simp add: strict_sorted_iff)
  have 2: "set qs = snd ` set (questions sv)" using assms(1,3) by (rule get_questions_set)
  have "score_loop sv sts qs 0
       = Inr ((0 + sum_list (map2 (\<lambda>r w. r * real_of_int w) rs ws)) / real (length (questions sv)))"
    using assms(4,5) by (rule score_loop_sum)
  then have 3: "score_students sv sts
           = Inr (sum_list (map2 (\<lambda>r w. r * real_of_int w) rs ws) / real (length (questions sv)))"
    using assms(2,3) by (simp add: score_students_def)
  from 1 2 3 show ?thesis by blast
qed

text \<open>The divisor is the number of questions, not the total weight: with weights 1 and 3
  and scores 1 and 1/2 the result is 5/4.\<close>

lemma score_students_weighted_sum_example:
  "get_questions ex_survey = Inr [ex_yesno, ex_numeric]
   \<and> score_students ex_survey ex_pair = Inr (5 / 4)"
proof -
  have inv: "survey_inv ex_survey"
    by (simp add: survey_inv_def ex_survey_def Survey_def set_weight_def ex_numeric_def ex_yesno_def)
  have ne: "questions ex_survey \<noteq> []"
    by (simp add: ex_survey_def Survey_def set_weight_def ex_numeric_def ex_yesno_def)
  have qs: "get_questions ex_survey = Inr [ex_yesno, ex_numeric]" by code_simp
  have q: "int_true_divide 2 4 = Inr (1 / 2)"
    using int_true_divide_fraction[of 2 4] by simp
  have rs: "list_all2 (\<lambda>q r. \<exists>c answers. map_of (criteria ex_survey) (question_id q) = Some c
      \<and> get_ans ex_pair q = Some answers \<and> score_answers c q answers = Inr r)
      [ex_yesno, ex_numeric] [1, 1 / 2]"
    using q
    by (simp add: ex_survey_def Survey_def set_weight_def ex_numeric_def ex_yesno_def
        ex_pair_def ex_student_def set_answer_def get_answer_def
        homogeneous_score_answers_def is_valid_def mc_similarity_def)
  have ws: "list_all2 (\<lambda>q w. map_of (weights ex_survey) (question_id q) = Some w
      \<and> \<bar>w\<bar> < float_overflow_bound) [ex_yesno, ex_numeric] [1, 3]"
    by (simp add: ex_survey_def Survey_def set_weight_def ex_numeric_def ex_yesno_def
        float_overflow_bound_def)
  have len: "length (questions ex_survey) = 2"
    by (simp add: ex_survey_def Survey_def set_weight_def ex_numeric_def ex_yesno_def)
  from score_students_weighted_sum[OF inv ne qs rs ws] qs len show ?thesis by simp
qed

text \<open>
  C1 (for students who all have a valid answer to every question, \<^verbatim>\<open>score_students\<close>
  returns the sum over the questions of criterion score times weight, divided by the
  number of questions) at an input where the code does otherwise: a survey of the
  checkbox question alone, with weight 1, under the lonely-member criterion, and two
  students with the same valid answer.  The content occurs twice, so the criterion's
  score is 1 by its docstring and the claim has the result 1; the criterion raises
  \<^verbatim>\<open>TypeError\<close> on the list content, and \<^verbatim>\<open>score_students\<close> raises it too.
\<close>

theorem score_students_valid_answers_type_error:
  "get_questions ex_checkbox_survey = Inr [ex_checkbox]
   \<and> get_criterion ex_checkbox_survey ex_checkbox = Inr LonelyMemberCriterion
   \<and> get_weight ex_checkbox_survey ex_checkbox = Inr 1
   \<and> get_ans [ex_lonely_student 1 ''A'', ex_lonely_student 2 ''B''] ex_checkbox
       = Some [Answer (PList [PStr ''a'']), Answer (PList [PStr ''a''])]
   \<and> validate_answer ex_checkbox (Answer (PList [PStr ''a''])) = Inr True
   \<and> score_students ex_checkbox_survey [ex_lonely_student 1 ''A'', ex_lonely_student 2 ''B'']
       = Inl TypeError"
  by (simp add: score_students_def ex_checkbox_survey_def Survey_def set_criterion_def
      ex_checkbox_def get_questions_def dict_getitem_def ex_lonely_student_def set_answer_def
      get_answer_def get_criterion_def get_weight_def lonely_member_score_answers_def
      is_valid_def set_add_def py_in_def)

section \<open>Errors and missing answers in score_students\<close>

lemma catch_invalid_answer_never: "catch_invalid_answer r \<noteq> Inl InvalidAnswerError"
  by (cases r rule: catch_invalid_answer.cases) auto

lemma score_students_never_invalid_answer: "score_students sv sts \<noteq> Inl InvalidAnswerError"
  by (simp add: score_students_def catch_invalid_answer_never)

lemma score_students_no_questions: "questions sv = [] \<Longrightarrow> score_students sv sts = Inr 0"
  by (simp add: score_students_def)

lemma get_ans_None_iff: "get_ans sts q = None \<longleftrightarrow> (\<exists>s\<in>set sts. get_answer s q = None)"
  by (induction sts) (auto split: option.splits)

lemma score_loop_missing:
  "q \<in> set qs \<Longrightarrow> get_ans sts q = None \<Longrightarrow>
     score_loop sv sts qs tot = Inr 0 \<or> (\<exists>e. score_loop sv sts qs tot = Inl e)"
proof (induction qs arbitrary: tot)
  case Nil
  then show ?case by simp
next
  case (Cons q' qs)
  show ?case
  proof (cases "q' = q")
    case True
    with Cons.prems show ?thesis by simp
  next
    case False
    with Cons.prems have "q \<in> set qs" by simp
    from Cons.IH[OF this Cons.prems(2)] show ?thesis
      by (auto split: option.splits sum.splits)
  qed
qed

lemma score_students_missing_answer:
  assumes "get_questions sv = Inr qs" and "q \<in> set qs" and "s \<in> set sts"
      and "get_answer s q = None"
  shows "score_students sv sts = Inr 0
      \<or> (\<exists>e. score_students sv sts = Inl e \<and> e \<noteq> InvalidAnswerError)"
proof (cases "length (questions sv) = 0")
  case True
  then show ?thesis by (simp add: score_students_def)
next
  case False
  from assms(3,4) have "get_ans sts q = None" unfolding get_ans_None_iff by blast
  from score_loop_missing[OF assms(2) this, of sv 0]
  have "catch_invalid_answer (score_loop sv sts qs 0) = Inr 0
      \<or> (\<exists>e. catch_invalid_answer (score_loop sv sts qs 0) = Inl e \<and> e \<noteq> InvalidAnswerError)"
  proof
    assume "score_loop sv sts qs 0 = Inr 0"
    then show ?thesis by simp
  next
    assume "\<exists>e. score_loop sv sts qs 0 = Inl e"
    then obtain e where e: "score_loop sv sts qs 0 = Inl e" ..
    then show ?thesis by (cases e) auto
  qed
  with False assms(1) show ?thesis by (simp add: score_students_def)
qed


lemma score_students_criterion_invalid:
  assumes "get_questions sv = Inr qs" and "score_loop sv sts qs 0 = Inl InvalidAnswerError"
  shows "score_students sv sts = Inr 0"
  using assms by (simp add: score_students_def)

text \<open>
  C2 (\<^verbatim>\<open>score_students\<close> returns 0 whenever a student lacks an answer to some question) at
  an input where the code does otherwise: both students lack an answer to the yes/no
  question, but the checkbox question comes first by id, its answers are valid, and its
  lonely-member criterion raises \<^verbatim>\<open>TypeError\<close>, which \<^verbatim>\<open>score_students\<close> does not catch.  The
  rest of the claim holds: \<^verbatim>\<open>score_students\<close> never raises \<^verbatim>\<open>InvalidAnswerError\<close>
  (\<open>score_students_never_invalid_answer\<close>), returns 0 for a survey without questions
  (\<open>score_students_no_questions\<close>) and when a criterion raises \<^verbatim>\<open>InvalidAnswerError\<close>
  (\<open>score_students_criterion_invalid\<close>); with a missing answer it returns 0 or raises
  another error (\<open>score_students_missing_answer\<close>).
\<close>

theorem score_students_missing_answer_type_error:
  "get_questions ex_lonely_survey = Inr [ex_checkbox, ex_yesno]
   \<and> get_answer (ex_lonely_student 1 ''A'') ex_yesno = None
   \<and> get_answer (ex_lonely_student 1 ''A'') ex_checkbox = Some (Answer (PList [PStr ''a'']))
   \<and> validate_answer ex_checkbox (Answer (PList [PStr ''a''])) = Inr True
   \<and> score_students ex_lonely_survey [ex_lonely_student 1 ''A'', ex_lonely_student 2 ''B'']
       = Inl TypeError"
  by (simp add: score_students_def ex_lonely_survey_def Survey_def set_criterion_def ex_checkbox_def
      ex_yesno_def get_questions_def dict_getitem_def ex_lonely_student_def set_answer_def
      get_answer_def get_criterion_def lonely_member_score_answers_def is_valid_def set_add_def
      py_in_def)

section \<open>Greedy and alphabetical grouping\<close>

lemma best_swap_improves:
  assumes "best_swap sv gr cs best found = Inr (best', Some gr')"
      and "cur \<le> best" and "\<forall>g. found = Some g \<longrightarrow> score_grouping sv g = Inr best"
  shows "score_grouping sv gr' = Inr best' \<and> cur \<le> best'"
  using assms
proof (induction cs arbitrary: best found)
  case Nil
  then show ?case by simp
next
  case (Cons c cs)
  from Cons.prems(1) obtain s where s: "score_grouping sv (swap_members gr c) = Inr s"
    by (auto split: sum.splits)
  show ?case
  proof (cases "best < s")
    case True
    with Cons.prems(1) s have "best_swap sv gr cs s (Some (swap_members gr c)) = Inr (best', Some gr')"
      by simp
    moreover have "cur \<le> s" using True Cons.prems(2) by simp
    moreover have "\<forall>g. Some (swap_members gr c) = Some g \<longrightarrow> score_grouping sv g = Inr s"
      using s by simp
    ultimately show ?thesis by (rule Cons.IH)
  next
    case False
    with Cons.prems(1) s have "best_swap sv gr cs best found = Inr (best', Some gr')" by simp
    then show ?thesis using Cons.prems(2,3) by (rule Cons.IH)
  qed
qed

lemma greedy_search_monotone:
  assumes "greedy_search sv budget gr = Inr gr'" and "score_grouping sv gr = Inr a"
  shows "\<exists>b. score_grouping sv gr' = Inr b \<and> a \<le> b"
  using assms
proof (induction budget arbitrary: gr a)
  case 0
  then show ?case by simp
next
  case (Suc budget)
  from Suc.prems obtain best found where
    bs: "best_swap sv gr (swap_candidates gr) a None = Inr (best, found)"
    by (auto split: sum.splits)
  show ?case
  proof (cases found)
    case None
    with Suc.prems bs show ?thesis by simp
  next
    case (Some g1)
    with Suc.prems bs have run: "greedy_search sv budget g1 = Inr gr'" by simp
    from bs Some have "score_grouping sv g1 = Inr best \<and> a \<le> best"
      by (intro best_swap_improves[where found = None and best = a]) auto
    then have g1: "score_grouping sv g1 = Inr best" and le: "a \<le> best" by auto
    from Suc.IH[OF run g1] obtain b where "score_grouping sv gr' = Inr b" "best \<le> b" by auto
    with le show ?thesis by auto
  qed
qed

lemma best_swap_total:
  assumes "\<forall>g. \<exists>s. score_grouping sv g = Inr s"
  shows "\<exists>r. best_swap sv gr cs best found = Inr r"
proof (induction cs arbitrary: best found)
  case Nil
  then show ?case by simp
next
  case (Cons c cs)
  from assms obtain s where "score_grouping sv (swap_members gr c) = Inr s" by blast
  with Cons.IH show ?case by simp
qed

lemma greedy_search_total:
  assumes "\<forall>g. \<exists>s. score_grouping sv g = Inr s"
  shows "\<exists>gr'. greedy_search sv budget gr = Inr gr'"
proof (induction budget arbitrary: gr)
  case 0
  then show ?case by simp
next
  case (Suc budget)
  from assms obtain cur where cur: "score_grouping sv gr = Inr cur" by blast
  from best_swap_total[OF assms] obtain best found where
    bs: "best_swap sv gr (swap_candidates gr) cur None = Inr (best, found)" by fastforce
  show ?case
  proof (cases found)
    case None
    with cur bs show ?thesis by simp
  next
    case (Some gr1)
    with cur bs Suc.IH[of gr1] show ?thesis by simp
  qed
qed

text \<open>
  C4: the grouping that the greedy grouper returns never scores lower than the grouping
  the alphabetical grouper makes of the same course with the same group size and survey,
  for every iteration budget.  The greedy grouper returns a grouping whenever the scoring
  raises no error (\<open>greedy_search_total\<close>).
\<close>

theorem greedy_never_below_alpha:
  assumes "greedy_make_grouping budget group_size c sv = Inr gr"
      and "score_grouping sv (alpha_make_grouping group_size c sv) = Inr a"
  shows "\<exists>b. score_grouping sv gr = Inr b \<and> a \<le> b"
  using assms unfolding greedy_make_grouping_def by (rule greedy_search_monotone)

theorem greedy_never_below_alpha_witness:
  "score_grouping ex_yesno_survey (alpha_make_grouping 2 ex_course ex_yesno_survey) = Inr 0
   \<and> (\<exists>gr. greedy_make_grouping 5 2 ex_course ex_yesno_survey = Inr gr
         \<and> score_grouping ex_yesno_survey gr = Inr 1)"
proof -
  let ?gr = "Grouping [Group [ex_student 1 ''D'' False 1, ex_student 3 ''B'' False 1],
                       Group [ex_student 4 ''C'' True 1, ex_student 2 ''A'' True 1]]"
  have g: "greedy_make_grouping 5 2 ex_course ex_yesno_survey = Inr ?gr" by code_simp
  have a: "score_grouping ex_yesno_survey (alpha_make_grouping 2 ex_course ex_yesno_survey) = Inr 0"
    by code_simp
  have s: "score_grouping ex_yesno_survey ?gr = Inr 1" by code_simp
  from greedy_never_below_alpha[OF g a] g a s show ?thesis by auto
qed

end
